theory Spec2Isabelle
  imports Main "HOL-Library.Multiset" "HOL-Library.Char_ord" "HOL-Library.List_Lexorder"
begin

section \<open>Data of the command \<^verbatim>\<open>extract-application-quality\<close>\<close>

text \<open>
  The constants of \<^verbatim>\<open>extract-application-quality.js\<close>, lines 9 to 12.
\<close>

definition CSV_SEPARATOR :: string where
  "CSV_SEPARATOR = '',''"

definition DESCRIPTION_MIN_LENGTH :: nat where
  "DESCRIPTION_MIN_LENGTH = 30"

definition LIST_APPLICATIONS_TIMEOUT :: nat where
  "LIST_APPLICATIONS_TIMEOUT = 30000"

definition ONLY_ONE_ES_RESULT :: nat where
  "ONLY_ONE_ES_RESULT = 1"

text \<open>
  The options of the command that the code reads from \<^verbatim>\<open>this.argv\<close>. An option
  without a default is \<open>None\<close> when it is not given on the command line.
\<close>

record argv =
  username :: string
  password :: string
  filter_by_id :: "string option"
  filter_by_name :: "string option"
  delay_period :: nat
  evaluate_runtime :: bool
  evaluate_runtime_from :: string
  evaluate_runtime_to :: string
  elasticsearch_url :: "string option"
  elasticsearch_url_header :: "string list"
  elasticsearch_index :: string

text \<open>
  The defaults declared in the constructor (lines 43 to 62): \<^verbatim>\<open>delay-period\<close> 200,
  \<^verbatim>\<open>evaluate-runtime\<close> false, \<^verbatim>\<open>evaluate-runtime-from\<close> \<^verbatim>\<open>now-1M\<close>,
  \<^verbatim>\<open>evaluate-runtime-to\<close> \<^verbatim>\<open>now\<close>. The credentials and the index, which have no default,
  are arguments.
\<close>

definition default_argv :: "string \<Rightarrow> string \<Rightarrow> string \<Rightarrow> argv" where
  "default_argv user pass idx =
     \<lparr> username = user, password = pass,
       filter_by_id = None, filter_by_name = None,
       delay_period = 200,
       evaluate_runtime = False,
       evaluate_runtime_from = ''now-1M'',
       evaluate_runtime_to = ''now'',
       elasticsearch_url = None,
       elasticsearch_url_header = [],
       elasticsearch_index = idx \<rparr>"

text \<open>
  An Application as the management service returns it. The code reads \<^verbatim>\<open>app.id\<close>,
  \<^verbatim>\<open>app.name\<close> and \<^verbatim>\<open>app.description\<close>; a description that is \<^verbatim>\<open>undefined\<close> or
  \<^verbatim>\<open>null\<close> is \<open>None\<close>.
\<close>

record application =
  app_id :: string
  app_name :: string
  app_description :: "string option"

text \<open>
  What the program can fail with: a JavaScript \<^verbatim>\<open>TypeError\<close> raised by the code itself,
  and the failures of the collaborators named in the specification.
\<close>

datatype error =
    TypeError string
  | Timeout
  | NotFound
  | AuthFailure
  | TransportFailure string

section \<open>Observables\<close>

text \<open>
  An RxJS observable is modelled by the notifications it delivers: the values passed to
  \<^verbatim>\<open>next\<close>, in order, and then how it ends: \<^verbatim>\<open>complete\<close>, \<^verbatim>\<open>error\<close>, or neither
  (an observable that stays silent for ever, such as a request that is never answered).
\<close>

datatype ending = Completed | Failed error | Pending

datatype 'a observable = Observable (emitted: "'a list") (ending: ending)

definition Rx_of :: "'a \<Rightarrow> 'a observable" where
  "Rx_of x = Observable [x] Completed"

definition Rx_from :: "'a list \<Rightarrow> 'a observable" where
  "Rx_from xs = Observable xs Completed"

definition Rx_throw :: "error \<Rightarrow> 'a observable" where
  "Rx_throw e = Observable [] (Failed e)"

definition Rx_map :: "('a \<Rightarrow> 'b) \<Rightarrow> 'a observable \<Rightarrow> 'b observable" where
  "Rx_map f src = Observable (map f (emitted src)) (ending src)"

text \<open>
  \<^verbatim>\<open>take(n)\<close> completes as soon as it has passed \<open>n\<close> values on, whatever the source does
  afterwards; a source that ends earlier ends the result the same way.
\<close>

definition Rx_take :: "nat \<Rightarrow> 'a observable \<Rightarrow> 'a observable" where
  "Rx_take n src =
     (if n \<le> length (emitted src) then Observable (take n (emitted src)) Completed
      else src)"

text \<open>
  \<^verbatim>\<open>reduce(f, seed)\<close> emits the accumulated value once, when the source completes; it
  emits nothing when the source fails or never ends.
\<close>

definition Rx_reduce :: "('b \<Rightarrow> 'a \<Rightarrow> 'b) \<Rightarrow> 'b \<Rightarrow> 'a observable \<Rightarrow> 'b observable" where
  "Rx_reduce f seed src =
     (case ending src of
        Completed \<Rightarrow> Observable [foldl f seed (emitted src)] Completed
      | Failed e \<Rightarrow> Observable [] (Failed e)
      | Pending \<Rightarrow> Observable [] Pending)"

text \<open>
  \<^verbatim>\<open>flatMap\<close> subscribes to one inner observable per value of the source and merges
  what they deliver. The order in which the inner observables deliver is not fixed by the
  program (it depends on when each request is answered), so it is an argument: at every
  step the head of the schedule, taken modulo the number of inner observables still
  running, picks the one that delivers its next notification; when the schedule is used
  up the first one is picked. A value is passed on; a completion removes the inner
  observable; a failure ends the merged observable at once; an inner observable that never
  ends keeps the merged observable from completing.
\<close>

definition remaining :: "'a observable list \<Rightarrow> nat" where
  "remaining inners = sum_list (map (\<lambda>inner. Suc (length (emitted inner))) inners)"

definition pick :: "nat list \<Rightarrow> nat \<Rightarrow> nat" where
  "pick sched n = (case sched of [] \<Rightarrow> 0 | k # _ \<Rightarrow> k mod n)"

definition without :: "nat \<Rightarrow> 'a list \<Rightarrow> 'a list" where
  "without i xs = take i xs @ drop (Suc i) xs"

lemma remaining_update:
  assumes "i < length inners" and "emitted (inners ! i) = x # xs"
  shows "remaining (inners[i := Observable xs e]) < remaining inners"
proof -
  have "inners = take i inners @ (inners ! i) # drop (Suc i) inners"
    using assms(1) by (simp add: id_take_nth_drop)
  moreover have "inners[i := Observable xs e] = take i inners @ Observable xs e # drop (Suc i) inners"
    using assms(1) by (simp add: upd_conv_take_nth_drop)
  ultimately have "remaining inners = remaining (take i inners) + Suc (length (x # xs)) + remaining (drop (Suc i) inners)"
    and "remaining (inners[i := Observable xs e]) = remaining (take i inners) + Suc (length xs) + remaining (drop (Suc i) inners)"
    using assms(2) unfolding remaining_def
    by (metis (no_types, lifting) add.assoc list.simps(9) map_append sum_list.Cons sum_list.append,
        simp)
  then show ?thesis by simp
qed

lemma remaining_without:
  assumes "i < length inners"
  shows "remaining (without i inners) < remaining inners"
proof -
  have "inners = take i inners @ (inners ! i) # drop (Suc i) inners"
    using assms by (simp add: id_take_nth_drop)
  then have "remaining inners = remaining (take i inners) + Suc (length (emitted (inners ! i))) + remaining (drop (Suc i) inners)"
    unfolding remaining_def
    by (metis (no_types, lifting) add.assoc list.simps(9) map_append sum_list.Cons sum_list.append)
  moreover have "remaining (without i inners) = remaining (take i inners) + remaining (drop (Suc i) inners)"
    by (simp add: without_def remaining_def)
  ultimately show ?thesis by simp
qed

lemma pick_less: "0 < n \<Longrightarrow> pick sched n < n"
  by (simp add: pick_def split: list.splits)

function mergeAll :: "nat list \<Rightarrow> bool \<Rightarrow> 'a observable list \<Rightarrow> 'a observable" where
  "mergeAll sched silent running =
     (if running = [] then Observable [] (if silent then Pending else Completed)
      else
        let i = pick sched (length running)
        in case emitted (running ! i) of
             x # xs \<Rightarrow>
               (let rest = mergeAll (tl sched) silent (running[i := Observable xs (ending (running ! i))])
                in Observable (x # emitted rest) (ending rest))
           | [] \<Rightarrow>
               (case ending (running ! i) of
                  Completed \<Rightarrow> mergeAll (tl sched) silent (without i running)
                | Failed e \<Rightarrow> Observable [] (Failed e)
                | Pending \<Rightarrow> mergeAll (tl sched) True (without i running)))"
  by pat_completeness auto
termination
proof (relation "measure (\<lambda>(sched, silent, running). remaining running)")
  show "wf (measure (\<lambda>(sched, silent, running). remaining running))"
    by simp
qed (simp_all add: remaining_update remaining_without pick_less)

declare mergeAll.simps [simp del]

definition Rx_flatMap :: "nat list \<Rightarrow> ('a \<Rightarrow> 'b observable) \<Rightarrow> 'a observable \<Rightarrow> 'b observable" where
  "Rx_flatMap sched project src =
     mergeAll sched False (map project (emitted src) @ [Observable [] (ending src)])"

text \<open>
  Some of the functions handed to \<^verbatim>\<open>tap\<close> and \<^verbatim>\<open>flatMap\<close> change the command
  object (they print, or fill a memo). These take the state and return the new one; the
  source's values pass through them in order. \<open>Rx_tap\<close> applies the effect to every value
  of the source's trace; where a later operator fails and unsubscribes the source before
  its last value, the code applies it to the values delivered until then only. In
  \<open>pipeline\<close> the effect prints \<open>Info\<close> lines, so the \<open>Info\<close> lines of a run that fails
  are those of the code and possibly more; the \<open>Raw\<close> lines are not concerned.
\<close>

definition Rx_tap :: "('a \<Rightarrow> 's \<Rightarrow> 's) \<Rightarrow> 'a observable \<Rightarrow> 's \<Rightarrow> 'a observable \<times> 's" where
  "Rx_tap effect src s = (src, foldl (\<lambda>s x. effect x s) s (emitted src))"

fun projectAll :: "('a \<Rightarrow> 's \<Rightarrow> 'b \<times> 's) \<Rightarrow> 'a list \<Rightarrow> 's \<Rightarrow> 'b list \<times> 's" where
  "projectAll project [] s = ([], s)"
| "projectAll project (x # xs) s =
     (let (y, s1) = project x s;
          (ys, s2) = projectAll project xs s1
      in (y # ys, s2))"

definition Rx_flatMapS ::
  "nat list \<Rightarrow> ('a \<Rightarrow> 's \<Rightarrow> 'b observable \<times> 's) \<Rightarrow> 'a observable \<Rightarrow> 's \<Rightarrow> 'b observable \<times> 's" where
  "Rx_flatMapS sched project src s =
     (let (inners, s') = projectAll project (emitted src) s
      in (mergeAll sched False (inners @ [Observable [] (ending src)]), s'))"

section \<open>Strings, arrays and regular expressions\<close>

text \<open>
  Modelled from the spec: \<^verbatim>\<open>StringUtils.compare\<close> of \<^verbatim>\<open>lib/string-utils\<close>, which is
  not among the sources. The specification sorts "ascending by \<^verbatim>\<open>reference\<close>"; the
  comparison is the one of JavaScript's \<^verbatim>\<open><\<close> on strings, character code by character
  code, and the result is negative, zero or positive as a comparator's must be.
\<close>

definition StringUtils_compare :: "string \<Rightarrow> string \<Rightarrow> int" where
  "StringUtils_compare left right = (if left < right then - 1 else if right < left then 1 else 0)"

text \<open>
  \<^verbatim>\<open>Array.prototype.sort(compareFn)\<close> is a stable sort: an element goes before the
  elements it does not compare greater than, and elements that compare equal keep their
  order.
\<close>

fun insert_by :: "('a \<Rightarrow> 'a \<Rightarrow> int) \<Rightarrow> 'a \<Rightarrow> 'a list \<Rightarrow> 'a list" where
  "insert_by compareFn x [] = [x]"
| "insert_by compareFn x (y # ys) =
     (if compareFn x y \<le> 0 then x # y # ys else y # insert_by compareFn x ys)"

definition Array_sort :: "('a \<Rightarrow> 'a \<Rightarrow> int) \<Rightarrow> 'a list \<Rightarrow> 'a list" where
  "Array_sort compareFn xs = foldr (insert_by compareFn) xs []"

text \<open>\<^verbatim>\<open>Array.prototype.join\<close> on strings.\<close>

fun Array_join :: "string \<Rightarrow> string list \<Rightarrow> string" where
  "Array_join sep [] = []"
| "Array_join sep [x] = x"
| "Array_join sep (x # y # ys) = x @ sep @ Array_join sep (y # ys)"

text \<open>A boolean concatenated to a string.\<close>

definition Boolean_toString :: "bool \<Rightarrow> string" where
  "Boolean_toString b = (if b then ''true'' else ''false'')"

text \<open>
  The regular expressions the pattern of line 21 is made of: a literal character, the
  class \<^verbatim>\<open>\w\<close>, sequence, alternative and repetition. \<open>Never\<close> matches nothing and
  \<open>Eps\<close> the empty string; \<^verbatim>\<open>r+\<close> and \<^verbatim>\<open>r?\<close> are written with them.
\<close>

datatype regex =
    Never
  | Eps
  | Lit char
  | WordChar
  | Seq regex regex
  | Alt regex regex
  | Star regex

definition Plus :: "regex \<Rightarrow> regex" where
  "Plus r = Seq r (Star r)"

definition Opt :: "regex \<Rightarrow> regex" where
  "Opt r = Alt r Eps"

fun Str :: "string \<Rightarrow> regex" where
  "Str [] = Eps"
| "Str (c # cs) = Seq (Lit c) (Str cs)"

text \<open>\<^verbatim>\<open>\w\<close> is \<^verbatim>\<open>[A-Za-z0-9_]\<close>.\<close>

definition isWordChar :: "char \<Rightarrow> bool" where
  "isWordChar c \<longleftrightarrow>
     (CHR ''a'' \<le> c \<and> c \<le> CHR ''z'') \<or> (CHR ''A'' \<le> c \<and> c \<le> CHR ''Z'') \<or>
     (CHR ''0'' \<le> c \<and> c \<le> CHR ''9'') \<or> c = CHR ''_''"

text \<open>
  Matching by derivatives: \<open>deriv c r\<close> matches what is left of a string matched by
  \<open>r\<close> once its first character \<open>c\<close> is read, and \<open>nullable r\<close> says whether
  \<open>r\<close> matches the empty string.
\<close>

fun nullable :: "regex \<Rightarrow> bool" where
  "nullable Never = False"
| "nullable Eps = True"
| "nullable (Lit c) = False"
| "nullable WordChar = False"
| "nullable (Seq r s) = (nullable r \<and> nullable s)"
| "nullable (Alt r s) = (nullable r \<or> nullable s)"
| "nullable (Star r) = True"

fun deriv :: "char \<Rightarrow> regex \<Rightarrow> regex" where
  "deriv c Never = Never"
| "deriv c Eps = Never"
| "deriv c (Lit d) = (if c = d then Eps else Never)"
| "deriv c WordChar = (if isWordChar c then Eps else Never)"
| "deriv c (Seq r s) =
     (if nullable r then Alt (Seq (deriv c r) s) (deriv c s) else Seq (deriv c r) s)"
| "deriv c (Alt r s) = Alt (deriv c r) (deriv c s)"
| "deriv c (Star r) = Seq (deriv c r) (Star r)"

text \<open>
  Modelled from the spec: \<^verbatim>\<open>StringUtils.matches\<close> of \<^verbatim>\<open>lib/string-utils\<close>, which is
  not among the sources. The specification applies the pattern "anchored to the whole
  name": the pattern of line 21 starts with \<^verbatim>\<open>^\<close> and ends with \<^verbatim>\<open>$\<close>, so the string
  matches when all of it is matched by what stands between the two anchors.
\<close>

definition StringUtils_matches :: "string \<Rightarrow> regex \<Rightarrow> bool" where
  "StringUtils_matches actual expected = nullable (foldl (\<lambda>r c. deriv c r) expected actual)"

text \<open>
  Line 21: \<^verbatim>\<open>/^(\w+( \w+)* \- )?\w+( \w+)*( \- \w+)?$/\<close>. The group \<^verbatim>\<open>\w+( \w+)*\<close>
  occurs twice.
\<close>

definition words :: regex where
  "words = Seq (Plus WordChar) (Star (Seq (Lit CHR '' '') (Plus WordChar)))"

definition APP_NAME_REGEX :: regex where
  "APP_NAME_REGEX =
     Seq (Opt (Seq words (Str '' - '')))
         (Seq words (Opt (Seq (Str '' - '') (Plus WordChar))))"

section \<open>Collaborators\<close>

text \<open>
  The search index. \<^verbatim>\<open>searchHits(index, from, to, terms, pageSize)\<close> of
  \<^verbatim>\<open>lib/elasticsearch\<close> is not among the sources: it is an argument of the model, a
  function from the request to the observable of what the index answers. The code reads
  \<^verbatim>\<open>hit.meta.total\<close> of what it emits.
\<close>

record meta =
  total :: int

record hit =
  meta :: meta

record elasticsearch =
  searchHits :: "string \<Rightarrow> string \<Rightarrow> string \<Rightarrow> (string \<times> string) list \<Rightarrow> nat \<Rightarrow> hit observable"

text \<open>
  The management service client, likewise an argument: \<^verbatim>\<open>login\<close>,
  \<^verbatim>\<open>getApplication(id)\<close> and \<^verbatim>\<open>listApplications(filters, delay, timeout)\<close>.
\<close>

record filters =
  byName :: "string option"

record managementApi =
  login :: "string \<Rightarrow> string \<Rightarrow> string observable"
  getApplication :: "string \<Rightarrow> application observable"
  listApplications :: "filters \<Rightarrow> nat \<Rightarrow> nat \<Rightarrow> application observable"

text \<open>
  Modelled from the spec: \<^verbatim>\<open>QualityCriterion\<close> of \<^verbatim>\<open>lib/quality-criteria-converter\<close>,
  which is not among the sources. The specification's QualityResult is the value object
  (\<^verbatim>\<open>reference\<close>, \<^verbatim>\<open>description\<close>, \<^verbatim>\<open>complied\<close>); the constructor is called with the
  description, the reference and the compliance, in this order (line 161).
\<close>

record qualityCriterion =
  qc_description :: string
  qc_reference :: string
  complied :: bool

definition QualityCriterion :: "string \<Rightarrow> string \<Rightarrow> bool \<Rightarrow> qualityCriterion" where
  "QualityCriterion d r c = \<lparr> qc_description = d, qc_reference = r, complied = c \<rparr>"

section \<open>The command\<close>

text \<open>
  A criterion of the catalog (lines 114 to 134). Its \<^verbatim>\<open>evaluate\<close> takes the
  application, the management client and the search index, which is \<^verbatim>\<open>undefined\<close>
  (\<open>None\<close>) when no URL was given (lines 82 to 84).
\<close>

record criterion =
  reference :: string
  description :: string
  atRuntime :: bool
  enabled :: bool
  evaluate :: "application \<Rightarrow> managementApi \<Rightarrow> elasticsearch option \<Rightarrow> bool observable"

text \<open>What the command prints, by the method that printed it.\<close>

datatype display = Info string | Raw string | Err error

text \<open>
  The command object: its options, the two memos \<^verbatim>\<open>_criteria\<close> and
  \<^verbatim>\<open>_enabledCriteria\<close> (\<open>None\<close> while unset) and what it has printed so far. The
  catalog is an object; its properties are kept in insertion order, as
  \<^verbatim>\<open>Object.values\<close> lists them.
\<close>

record command =
  argv :: argv
  memo_criteria :: "(string \<times> criterion) list option"
  memo_enabledCriteria :: "criterion list option"
  console :: "display list"

definition displayInfo :: "string \<Rightarrow> command \<Rightarrow> command" where
  "displayInfo message this = this\<lparr>console := console this @ [Info message]\<rparr>"

definition displayRaw :: "string \<Rightarrow> command \<Rightarrow> command" where
  "displayRaw message this = this\<lparr>console := console this @ [Raw message]\<rparr>"

definition Object_values :: "(string \<times> 'a) list \<Rightarrow> 'a list" where
  "Object_values obj = map snd obj"

text \<open>Lines 176 to 182.\<close>

definition evaluateNamingConvention :: "regex \<Rightarrow> string \<Rightarrow> bool observable" where
  "evaluateNamingConvention expectedRegex actual = Rx_of (StringUtils_matches actual expectedRegex)"

definition evaluateMinimumLength :: "nat \<Rightarrow> nat \<Rightarrow> bool observable" where
  "evaluateMinimumLength expected actual = Rx_of (expected \<le> actual)"

text \<open>
  Lines 184 to 195. Calling \<^verbatim>\<open>searchHits\<close> on an \<^verbatim>\<open>undefined\<close> index raises a
  \<^verbatim>\<open>TypeError\<close>, which \<^verbatim>\<open>flatMap\<close> turns into the failure of the observable.
\<close>

definition evaluateUsage :: "argv \<Rightarrow> application \<Rightarrow> managementApi \<Rightarrow> elasticsearch option \<Rightarrow> bool observable" where
  "evaluateUsage args app managementApi elasticsearch =
     (case elasticsearch of
        None \<Rightarrow> Rx_throw (TypeError ''Cannot read property 'searchHits' of undefined'')
      | Some es \<Rightarrow>
          Rx_map (\<lambda>hit. total (meta hit) > 0)
            (Rx_take ONLY_ONE_ES_RESULT
              (searchHits es
                 (elasticsearch_index args)
                 (evaluate_runtime_from args)
                 (evaluate_runtime_to args)
                 [(''application'', app_id app)]
                 ONLY_ONE_ES_RESULT)))"

definition runtimeEvaluationEnabled :: "command \<Rightarrow> bool" where
  "runtimeEvaluationEnabled this = evaluate_runtime (argv this)"

text \<open>
  Lines 109 to 137. Reading \<^verbatim>\<open>length\<close> of a description that is \<^verbatim>\<open>undefined\<close> or
  \<^verbatim>\<open>null\<close> raises a \<^verbatim>\<open>TypeError\<close> (line 126).
\<close>

definition catalog :: "argv \<Rightarrow> (string \<times> criterion) list" where
  "catalog args =
     [ (''nameNamingConvention'',
          \<lparr> reference = ''APP-DF01'',
            description = ''Name's naming convention complied'',
            atRuntime = False,
            enabled = True,
            evaluate = (\<lambda>app managementApi elasticsearch.
               evaluateNamingConvention APP_NAME_REGEX (app_name app)) \<rparr>),
       (''descriptionMinLength'',
          \<lparr> reference = ''APP-DF02'',
            description = ''Description's length higher than 30'',
            atRuntime = False,
            enabled = True,
            evaluate = (\<lambda>app managementApi elasticsearch.
               case app_description app of
                 None \<Rightarrow> Rx_throw (TypeError ''Cannot read property 'length' of undefined'')
               | Some d \<Rightarrow> evaluateMinimumLength DESCRIPTION_MIN_LENGTH (length d)) \<rparr>),
       (''appUsage'',
          \<lparr> reference = ''APP-R00'',
            description = ''Application usage at runtime'',
            atRuntime = True,
            enabled = True,
            evaluate = (\<lambda>app managementApi elasticsearch.
               evaluateUsage args app managementApi elasticsearch) \<rparr>) ]"

definition getCriteria :: "command \<Rightarrow> (string \<times> criterion) list \<times> command" where
  "getCriteria this =
     (case memo_criteria this of
        Some criteria \<Rightarrow> (criteria, this)
      | None \<Rightarrow> (catalog (argv this), this\<lparr>memo_criteria := Some (catalog (argv this))\<rparr>))"

text \<open>Lines 139 to 149. An array, also an empty one, is truthy, so a set memo is returned.\<close>

definition getEnabledCriteria :: "command \<Rightarrow> criterion list \<times> command" where
  "getEnabledCriteria this =
     (case memo_enabledCriteria this of
        Some enabledCriteria \<Rightarrow> (enabledCriteria, this)
      | None \<Rightarrow>
          (let (criteria, this1) = getCriteria this;
               enabledCriteria =
                 Array_sort (\<lambda>left right. StringUtils_compare (reference left) (reference right))
                   (filter (\<lambda>criteria. enabled criteria \<and>
                              (\<not> atRuntime criteria \<or> atRuntime criteria = runtimeEvaluationEnabled this1))
                      (Object_values criteria))
           in (enabledCriteria, this1\<lparr>memo_enabledCriteria := Some enabledCriteria\<rparr>)))"

text \<open>
  Lines 151 to 174. The report of one application: the application and its quality
  results. The order in which the evaluators deliver is the schedule \<open>sched\<close> of the inner
  \<^verbatim>\<open>flatMap\<close>; the outer one has a single inner observable.
\<close>

record appQuality =
  app :: application
  quality :: "qualityCriterion list"

definition evaluateCriteria ::
  "nat list \<Rightarrow> application \<Rightarrow> managementApi \<Rightarrow> elasticsearch option \<Rightarrow> command \<Rightarrow> appQuality observable \<times> command" where
  "evaluateCriteria sched application managementApi elasticsearch this =
     Rx_flatMapS []
       (\<lambda>app this.
          let (enabledCriteria, this1) = getEnabledCriteria this
          in (Rx_map (\<lambda>quality.
                  \<lparr> app = app,
                    quality = Array_sort (\<lambda>left right. StringUtils_compare (qc_reference left) (qc_reference right)) quality \<rparr>)
                (Rx_reduce (\<lambda>acc criterion. acc @ [criterion]) []
                  (Rx_flatMap sched
                     (\<lambda>criteria.
                        Rx_map (\<lambda>complied. QualityCriterion (description criteria) (reference criteria) complied)
                          (evaluate criteria app managementApi elasticsearch))
                     (Rx_from enabledCriteria))),
              this1))
       (Rx_of application) this"

section \<open>The reporter\<close>

text \<open>Lines 203 to 226.\<close>

record reporter =
  qualityApps :: "appQuality list"

definition new_reporter :: reporter where
  "new_reporter = \<lparr> qualityApps = [] \<rparr>"

definition doNext :: "appQuality \<Rightarrow> reporter \<Rightarrow> reporter" where
  "doNext next this = this\<lparr>qualityApps := qualityApps this @ [next]\<rparr>"

definition csv_header :: "criterion list \<Rightarrow> string" where
  "csv_header enabledCriteria =
     ''Application id,Application name,'' @ Array_join CSV_SEPARATOR (map reference enabledCriteria)"

definition csv_row :: "appQuality \<Rightarrow> string" where
  "csv_row appQuality =
     app_id (app appQuality) @ CSV_SEPARATOR @
     app_name (app appQuality) @ CSV_SEPARATOR @
     Array_join CSV_SEPARATOR (map (\<lambda>criteria. Boolean_toString (complied criteria)) (quality appQuality))"

definition doComplete :: "reporter \<Rightarrow> command \<Rightarrow> command" where
  "doComplete this cliCommand =
     (let c1 = displayInfo ''Applications quality, in CSV format:'' cliCommand;
          (enabledCriteria, c2) = getEnabledCriteria c1;
          c3 = displayRaw (csv_header enabledCriteria) c2
      in foldl (\<lambda>c appQuality. displayRaw (csv_row appQuality) c) c3 (qualityApps this))"

text \<open>
  Modelled from the spec: \<^verbatim>\<open>CliCommandReporter\<close> of \<^verbatim>\<open>lib/cli-command\<close>, which is
  not among the sources. The reporter of line 203 only defines \<^verbatim>\<open>doNext\<close> and
  \<^verbatim>\<open>doComplete\<close>; the specification has it accumulate "every ResourceReport until the
  upstream sequence signals completion", and "on upstream failure, the sink must not emit
  a partial/corrupt table; it surfaces the failure instead". So every value goes to
  \<^verbatim>\<open>doNext\<close>, a completion to \<^verbatim>\<open>doComplete\<close>, and a failure is printed as such and
  ends the run.
\<close>

datatype outcome = Succeeded | Aborted error | Unfinished

definition subscribe :: "appQuality observable \<Rightarrow> reporter \<Rightarrow> command \<Rightarrow> reporter \<times> command \<times> outcome" where
  "subscribe src this cliCommand =
     (let accumulated = foldl (\<lambda>r next. doNext next r) this (emitted src)
      in case ending src of
           Completed \<Rightarrow> (accumulated, doComplete accumulated cliCommand, Succeeded)
         | Failed e \<Rightarrow> (accumulated, cliCommand\<lparr>console := console cliCommand @ [Err e]\<rparr>, Aborted e)
         | Pending \<Rightarrow> (accumulated, cliCommand, Unfinished))"

section \<open>The run\<close>

text \<open>
  An option that is not given, or given as the empty string, is falsy (lines 82 and 91).
\<close>

definition given :: "string option \<Rightarrow> string option" where
  "given v = (case v of None \<Rightarrow> None | Some s \<Rightarrow> if s = [] then None else Some s)"

text \<open>
  The orders in which the three \<^verbatim>\<open>flatMap\<close> of a run deliver: the one on the login
  token (line 91), the one on the applications (line 104), and, for each application, the
  one on its criteria (line 158).
\<close>

record schedules =
  discovery_order :: "nat list"
  reports_order :: "nat list"
  criteria_order :: "application \<Rightarrow> nat list"

text \<open>
  Lines 82 to 84: the connection to the search index, \<^verbatim>\<open>undefined\<close> without a URL.
  \<^verbatim>\<open>ElasticSearch.createInstance\<close> is an argument, as the other collaborators are.
\<close>

definition connect :: "(string \<Rightarrow> string list \<Rightarrow> elasticsearch) \<Rightarrow> argv \<Rightarrow> elasticsearch option" where
  "connect createInstance args =
     (case given (elasticsearch_url args) of
        Some url \<Rightarrow> Some (createInstance url (elasticsearch_url_header args))
      | None \<Rightarrow> None)"

text \<open>
  Lines 87 to 100: after the login, the applications to evaluate, either the one with the
  given id or those that \<^verbatim>\<open>listApplications\<close> emits for the name filter, the delay
  period and the timeout.
\<close>

definition discover :: "schedules \<Rightarrow> managementApi \<Rightarrow> argv \<Rightarrow> application observable" where
  "discover sch managementApi args =
     Rx_flatMap (discovery_order sch)
       (\<lambda>token. case given (filter_by_id args) of
            Some uuid \<Rightarrow> getApplication managementApi uuid
          | None \<Rightarrow>
              listApplications managementApi
                \<lparr> byName = filter_by_name args \<rparr>
                (delay_period args)
                LIST_APPLICATIONS_TIMEOUT)
       (login managementApi (username args) (password args))"

text \<open>
  Lines 87 to 105: the pipeline that \<^verbatim>\<open>definition\<close> builds on the login, up to the
  reports, with the command as the \<^verbatim>\<open>tap\<close> and the evaluations leave it.
\<close>

definition pipeline ::
  "schedules \<Rightarrow> elasticsearch option \<Rightarrow> managementApi \<Rightarrow> command \<Rightarrow> appQuality observable \<times> command" where
  "pipeline sch elasticsearch managementApi this =
     (let applications = discover sch managementApi (argv this);
          (tapped, this1) =
            Rx_tap (\<lambda>app c. displayInfo
                       (''Get quality metrics for Application '' @ [CHR 0x22] @ app_name app @ [CHR 0x22]
                          @ '' ('' @ app_id app @ '')'') c)
              applications this
      in Rx_flatMapS (reports_order sch)
           (\<lambda>app c. evaluateCriteria (criteria_order sch app) app managementApi elasticsearch c)
           tapped this1)"

text \<open>
  Lines 80 to 107: the pipeline, subscribed to by a new reporter (line 106). The result
  is the reporter, the command and how the run ended.
\<close>

definition definition_run ::
  "schedules \<Rightarrow> (string \<Rightarrow> string list \<Rightarrow> elasticsearch) \<Rightarrow> managementApi \<Rightarrow> command \<Rightarrow> reporter \<times> command \<times> outcome" where
  "definition_run sch createInstance managementApi this =
     (let elasticsearch = connect createInstance (argv this);
          (reports, this2) = pipeline sch elasticsearch managementApi this
      in subscribe reports new_reporter this2)"

section \<open>What the memos hold\<close>

text \<open>
  The catalog a command works with, and the enabled criteria that
  \<^verbatim>\<open>getEnabledCriteria\<close> computes from it when the memo is unset. A command is
  \<open>consistent\<close> when its memo of the enabled criteria, if set, holds that value.
\<close>

definition catalog_of :: "command \<Rightarrow> (string \<times> criterion) list" where
  "catalog_of this = (case memo_criteria this of Some criteria \<Rightarrow> criteria | None \<Rightarrow> catalog (argv this))"

definition enabledCriteria_of :: "command \<Rightarrow> criterion list" where
  "enabledCriteria_of this =
     sort_key reference
       (filter (\<lambda>c. enabled c \<and> (\<not> atRuntime c \<or> evaluate_runtime (argv this)))
          (Object_values (catalog_of this)))"

definition consistent :: "command \<Rightarrow> bool" where
  "consistent this = (memo_enabledCriteria this \<in> {None, Some (enabledCriteria_of this)})"

text \<open>The lines that \<^verbatim>\<open>displayRaw\<close> printed: the table.\<close>

definition raw_lines :: "display list \<Rightarrow> string list" where
  "raw_lines out = concat (map (\<lambda>d. case d of Raw l \<Rightarrow> [l] | _ \<Rightarrow> []) out)"

text \<open>The number of fields of a line: one more than its separators.\<close>

definition separators :: "string \<Rightarrow> nat" where
  "separators line = length (filter (\<lambda>c. [c] = CSV_SEPARATOR) line)"

definition field_count :: "string \<Rightarrow> nat" where
  "field_count line = Suc (separators line)"

text \<open>What a list of inner observables delivers altogether.\<close>

definition delivered :: "'a observable list \<Rightarrow> 'a multiset" where
  "delivered inners = mset (concat (map emitted inners))"

section \<open>The naming convention in words\<close>

text \<open>
  The strings a regular expression stands for, and the convention as the comment of
  lines 14 to 20 and the specification word it: a word is one or more characters of
  \<^verbatim>\<open>\w\<close>; a phrase is one or more words separated by single spaces; a name is an
  optional namespace (a phrase) followed by \<^verbatim>\<open>" - "\<close>, then a phrase, then optionally
  \<^verbatim>\<open>" - "\<close> and a country (a word).
\<close>

definition conc :: "string set \<Rightarrow> string set \<Rightarrow> string set" where
  "conc A B = {a @ b | a b. a \<in> A \<and> b \<in> B}"

inductive_set star :: "string set \<Rightarrow> string set" for A :: "string set" where
  none: "[] \<in> star A"
| more: "a \<in> A \<Longrightarrow> s \<in> star A \<Longrightarrow> a @ s \<in> star A"

fun lang :: "regex \<Rightarrow> string set" where
  "lang Never = {}"
| "lang Eps = {[]}"
| "lang (Lit c) = {[c]}"
| "lang WordChar = {[c] | c. isWordChar c}"
| "lang (Seq r s) = conc (lang r) (lang s)"
| "lang (Alt r s) = lang r \<union> lang s"
| "lang (Star r) = star (lang r)"

definition word :: "string set" where
  "word = {w. w \<noteq> [] \<and> list_all isWordChar w}"

definition phrase :: "string set" where
  "phrase = conc word (star (conc {'' ''} word))"

definition optional :: "string set \<Rightarrow> string set" where
  "optional A = A \<union> {[]}"

definition naming_convention :: "string set" where
  "naming_convention =
     conc (optional (conc phrase {'' - ''})) (conc phrase (optional (conc {'' - ''} word)))"

text \<open>
  The two halves of line 158 to 162, named: what one criterion's evaluation delivers as
  quality results, and the merge of the evaluations of all enabled criteria.
\<close>

definition results_of ::
  "application \<Rightarrow> managementApi \<Rightarrow> elasticsearch option \<Rightarrow> criterion \<Rightarrow> qualityCriterion observable" where
  "results_of a m es c = Rx_map (\<lambda>complied. QualityCriterion (description c) (reference c) complied) (evaluate c a m es)"

definition evaluations ::
  "nat list \<Rightarrow> application \<Rightarrow> managementApi \<Rightarrow> elasticsearch option \<Rightarrow> criterion list \<Rightarrow> qualityCriterion observable" where
  "evaluations sched a m es enabledCriteria = Rx_flatMap sched (results_of a m es) (Rx_from enabledCriteria)"

section \<open>Sample values\<close>

text \<open>
  A command as the constructor leaves it (no memo set, nothing printed), and concrete
  collaborators: a management service that lists the given applications, an index that
  answers every request with one record reporting the given total, and an index that
  answers with no record at all.
\<close>

definition new_command :: "argv \<Rightarrow> command" where
  "new_command args = \<lparr> argv = args, memo_criteria = None, memo_enabledCriteria = None, console = [] \<rparr>"

definition listing_service :: "application observable \<Rightarrow> managementApi" where
  "listing_service listing =
     \<lparr> login = (\<lambda>user pass. Observable [''token''] Completed),
       getApplication = (\<lambda>uuid. Observable [] (Failed NotFound)),
       listApplications = (\<lambda>flt delay timeout. listing) \<rparr>"

definition index_reporting :: "int \<Rightarrow> elasticsearch" where
  "index_reporting n =
     \<lparr> searchHits = (\<lambda>index from to terms pageSize. Observable [\<lparr> meta = \<lparr> total = n \<rparr> \<rparr>] Completed) \<rparr>"

definition index_without_record :: elasticsearch where
  "index_without_record =
     \<lparr> searchHits = (\<lambda>index from to terms pageSize. Observable [] Completed) \<rparr>"

definition billing :: application where
  "billing =
     \<lparr> app_id = ''7f3c'',
       app_name = ''Billing - Invoicing - FR'',
       app_description = Some ''Issues and tracks the invoices of France'' \<rparr>"

definition administrator :: argv where
  "administrator = default_argv ''admin'' ''secret'' ''gravitee-request-*''"

definition runtime_command :: command where
  "runtime_command = new_command (administrator\<lparr>evaluate_runtime := True\<rparr>)"

definition searching :: argv where
  "searching = administrator\<lparr>evaluate_runtime := True, elasticsearch_url := Some ''http://elastic:9200''\<rparr>"

definition in_order :: schedules where
  "in_order = \<lparr> discovery_order = [], reports_order = [], criteria_order = (\<lambda>app. []) \<rparr>"

definition analytics :: application where
  "analytics =
     \<lparr> app_id = ''b21e'',
       app_name = ''Analytics, internal'',
       app_description = Some ''Dashboards'' \<rparr>"

section \<open>Merging\<close>


lemma delivered_split:
  assumes "i < length inners"
  shows "delivered inners = delivered (take i inners) + mset (emitted (inners ! i)) + delivered (drop (Suc i) inners)"
proof -
  have "inners = take i inners @ (inners ! i) # drop (Suc i) inners"
    using assms by (simp add: id_take_nth_drop)
  then have "delivered inners = delivered (take i inners @ (inners ! i) # drop (Suc i) inners)"
    by simp
  then show ?thesis by (simp add: delivered_def)
qed

lemma delivered_update:
  assumes "i < length inners" and "emitted (inners ! i) = x # xs"
  shows "delivered inners = add_mset x (delivered (inners[i := Observable xs e]))"
  using assms delivered_split [of i inners] delivered_split [of i "inners[i := Observable xs e]"]
  by simp

lemma delivered_without:
  assumes "i < length inners" and "emitted (inners ! i) = []"
  shows "delivered (without i inners) = delivered inners"
  using assms delivered_split [of i inners] by (simp add: without_def delivered_def)

lemma set_without: "set (without i xs) \<subseteq> set xs"
  by (auto simp: without_def dest: in_set_takeD in_set_dropD)

lemma set_without_nth:
  assumes "i < length xs"
  shows "set xs = insert (xs ! i) (set (without i xs))"
proof -
  have "xs = take i xs @ (xs ! i) # drop (Suc i) xs"
    using assms by (simp add: id_take_nth_drop)
  then have "set xs = set (take i xs @ (xs ! i) # drop (Suc i) xs)" by simp
  then show ?thesis by (simp add: without_def)
qed

lemma mergeAll_Nil:
  "mergeAll sched silent [] = Observable [] (if silent then Pending else Completed)"
  by (subst mergeAll.simps) simp

lemma mergeAll_completed:
  "ending (mergeAll sched silent running) = Completed \<Longrightarrow>
     \<not> silent \<and> (\<forall>inner \<in> set running. ending inner = Completed) \<and>
     mset (emitted (mergeAll sched silent running)) = delivered running"
proof (induction sched silent running rule: mergeAll.induct)
  case (1 sched silent running)
  show ?case
  proof (cases "running = []")
    case True
    with "1.prems" show ?thesis
      by (simp add: mergeAll_Nil delivered_def split: if_splits)
  next
    case False
    define i where "i = pick sched (length running)"
    have i: "i < length running" using False by (simp add: i_def pick_less)
    show ?thesis
    proof (cases "emitted (running ! i)")
      case (Cons x xs)
      let ?next = "running[i := Observable xs (ending (running ! i))]"
      have eq: "mergeAll sched silent running =
                Observable (x # emitted (mergeAll (tl sched) silent ?next)) (ending (mergeAll (tl sched) silent ?next))"
        using False Cons by (simp add: mergeAll.simps [of sched silent running] i_def Let_def)
      with "1.prems" have "ending (mergeAll (tl sched) silent ?next) = Completed" by simp
      from "1.IH"(3) [OF False i_def Cons this]
      have ih: "\<not> silent" "\<forall>inner \<in> set ?next. ending inner = Completed"
        "mset (emitted (mergeAll (tl sched) silent ?next)) = delivered ?next" by auto
      have "\<forall>inner \<in> set running. ending inner = Completed"
      proof
        fix inner assume "inner \<in> set running"
        then obtain j where j: "j < length running" "running ! j = inner"
          by (auto simp: in_set_conv_nth)
        have "?next ! j \<in> set ?next" using j by simp
        with ih(2) have "ending (?next ! j) = Completed" by blast
        then show "ending inner = Completed"
          using j i by (simp add: nth_list_update split: if_splits)
      qed
      moreover have "mset (emitted (mergeAll sched silent running)) = delivered running"
        using eq ih(3) delivered_update [OF i Cons] by simp
      ultimately show ?thesis using ih(1) by simp
    next
      case Nil
      show ?thesis
      proof (cases "ending (running ! i)")
        case Completed
        have eq: "mergeAll sched silent running = mergeAll (tl sched) silent (without i running)"
          using False Nil Completed by (simp add: mergeAll.simps [of sched silent running] i_def Let_def)
        with "1.prems" have "ending (mergeAll (tl sched) silent (without i running)) = Completed" by simp
        from "1.IH"(1) [OF False i_def Nil Completed this]
        have ih: "\<not> silent" "\<forall>inner \<in> set (without i running). ending inner = Completed"
          "mset (emitted (mergeAll (tl sched) silent (without i running))) = delivered (without i running)" by auto
        have "\<forall>inner \<in> set running. ending inner = Completed"
          using ih(2) Completed by (subst set_without_nth [OF i]) simp
        moreover have "mset (emitted (mergeAll sched silent running)) = delivered running"
          using ih(3) eq delivered_without [OF i Nil] by simp
        ultimately show ?thesis using ih(1) by simp
      next
        case (Failed e)
        have "mergeAll sched silent running = Observable [] (ending.Failed e)"
          using False Nil Failed by (simp add: mergeAll.simps [of sched silent running] i_def Let_def)
        with "1.prems" show ?thesis by simp
      next
        case Pending
        have eq: "mergeAll sched silent running = mergeAll (tl sched) True (without i running)"
          using False Nil Pending by (simp add: mergeAll.simps [of sched silent running] i_def Let_def)
        with "1.prems" have "ending (mergeAll (tl sched) True (without i running)) = Completed" by simp
        from "1.IH"(2) [OF False i_def Nil Pending this]
        show ?thesis by simp
      qed
    qed
  qed
qed

lemma mergeAll_all_completed:
  "\<forall>inner \<in> set running. ending inner = Completed \<Longrightarrow>
     ending (mergeAll sched silent running) = (if silent then Pending else Completed)"
proof (induction sched silent running rule: mergeAll.induct)
  case (1 sched silent running)
  show ?case
  proof (cases "running = []")
    case True
    then show ?thesis by (simp add: mergeAll_Nil)
  next
    case False
    define i where "i = pick sched (length running)"
    have i: "i < length running" using False by (simp add: i_def pick_less)
    then have fin: "ending (running ! i) = Completed" using "1.prems" by simp
    show ?thesis
    proof (cases "emitted (running ! i)")
      case (Cons x xs)
      let ?next = "running[i := Observable xs (ending (running ! i))]"
      have "\<forall>inner \<in> set ?next. ending inner = Completed"
        using "1.prems" fin by (auto dest!: subsetD [OF set_update_subset_insert])
      from "1.IH"(3) [OF False i_def Cons this]
      show ?thesis
        using False Cons by (simp add: mergeAll.simps [of sched silent running] i_def Let_def)
    next
      case Nil
      have "\<forall>inner \<in> set (without i running). ending inner = Completed"
        using "1.prems" set_without [of i running] by blast
      from "1.IH"(1) [OF False i_def Nil fin this]
      show ?thesis
        using False Nil fin by (simp add: mergeAll.simps [of sched silent running] i_def Let_def)
    qed
  qed
qed

lemma mergeAll_single: "mergeAll sched False [Observable xs e] = Observable xs e"
proof (induction xs arbitrary: sched)
  case Nil
  have "pick sched (Suc 0) = 0" by (simp add: pick_def split: list.splits)
  then show ?case
    by (subst mergeAll.simps) (simp add: without_def mergeAll_Nil split: ending.splits)
next
  case (Cons x xs)
  have "pick sched (Suc 0) = 0" by (simp add: pick_def split: list.splits)
  then show ?case
    using Cons [of "tl sched"]
    by (simp add: mergeAll.simps [of sched False "[Observable (x # xs) e]"])
qed



lemma mergeAll_failed:
  "\<exists>inner \<in> set running. \<exists>err. ending inner = Failed err \<Longrightarrow>
     \<exists>err. ending (mergeAll sched silent running) = Failed err"
proof (induction sched silent running rule: mergeAll.induct)
  case (1 sched silent running)
  then have nonempty: "running \<noteq> []" by auto
  define i where "i = pick sched (length running)"
  have i: "i < length running" using nonempty by (simp add: i_def pick_less)
  from "1.prems" obtain bad err where bad: "bad \<in> set running" "ending bad = Failed err" by blast
  show ?case
  proof (cases "emitted (running ! i)")
    case (Cons x xs)
    let ?next = "running[i := Observable xs (ending (running ! i))]"
    obtain j where j: "j < length running" "running ! j = bad"
      using bad(1) by (auto simp: in_set_conv_nth)
    have "?next ! j \<in> set ?next" using j by simp
    moreover have "ending (?next ! j) = Failed err"
      using j i bad(2) by (simp add: nth_list_update)
    ultimately have "\<exists>inner \<in> set ?next. \<exists>err. ending inner = Failed err" by blast
    from "1.IH"(3) [OF nonempty i_def Cons this]
    show ?thesis
      using nonempty Cons by (subst mergeAll.simps) (simp add: i_def Let_def)
  next
    case Nil
    show ?thesis
    proof (cases "ending (running ! i)")
      case Completed
      have "bad \<in> set (without i running)"
        using bad Completed set_without_nth [OF i] by auto
      with bad(2) have "\<exists>inner \<in> set (without i running). \<exists>err. ending inner = Failed err" by blast
      from "1.IH"(1) [OF nonempty i_def Nil Completed this]
      show ?thesis
        using nonempty Nil Completed by (subst mergeAll.simps) (simp add: i_def Let_def)
    next
      case (Failed e)
      then show ?thesis
        using nonempty Nil by (subst mergeAll.simps) (simp add: i_def Let_def)
    next
      case Pending
      have "bad \<in> set (without i running)"
        using bad Pending set_without_nth [OF i] by auto
      with bad(2) have "\<exists>inner \<in> set (without i running). \<exists>err. ending inner = Failed err" by blast
      from "1.IH"(2) [OF nonempty i_def Nil Pending this]
      show ?thesis
        using nonempty Nil Pending by (subst mergeAll.simps) (simp add: i_def Let_def)
    qed
  qed
qed

lemma mergeAll_then_end:
  "mergeAll [] silent [Observable xs e, Observable [] Completed] =
     Observable xs (case e of Completed \<Rightarrow> (if silent then Pending else Completed) | Failed err \<Rightarrow> Failed err | Pending \<Rightarrow> Pending)"
proof (induction xs)
  case Nil
  show ?case
    by (subst mergeAll.simps)
       (simp add: pick_def without_def mergeAll_Nil mergeAll.simps [of "[]" _ "[Observable [] Completed]"]
          split: ending.splits)
next
  case (Cons x xs)
  then show ?case
    by (subst mergeAll.simps) (simp add: pick_def)
qed

lemma mergeAll_only: "mergeAll [] False [src, Observable [] Completed] = src"
proof (cases src)
  case (Observable xs e)
  then show ?thesis
    using mergeAll_then_end [of False xs e] by (cases e) simp_all
qed

lemma mergeAll_emitted:
  "set (emitted (mergeAll sched silent running)) \<subseteq> (\<Union>inner \<in> set running. set (emitted inner))"
proof (induction sched silent running rule: mergeAll.induct)
  case (1 sched silent running)
  show ?case
  proof (cases "running = []")
    case True
    then show ?thesis by (simp add: mergeAll_Nil)
  next
    case False
    define i where "i = pick sched (length running)"
    have i: "i < length running" using False by (simp add: i_def pick_less)
    then have here: "running ! i \<in> set running" by simp
    show ?thesis
    proof (cases "emitted (running ! i)")
      case (Cons x xs)
      let ?next = "running[i := Observable xs (ending (running ! i))]"
      have eq: "emitted (mergeAll sched silent running) = x # emitted (mergeAll (tl sched) silent ?next)"
        using False Cons by (subst mergeAll.simps) (simp add: i_def Let_def)
      have "(\<Union>inner \<in> set ?next. set (emitted inner)) \<subseteq> (\<Union>inner \<in> set running. set (emitted inner))"
      proof
        fix y assume "y \<in> (\<Union>inner \<in> set ?next. set (emitted inner))"
        then obtain inner where inner: "inner \<in> set ?next" "y \<in> set (emitted inner)" by blast
        then have "inner \<in> insert (Observable xs (ending (running ! i))) (set running)"
          using set_update_subset_insert by fastforce
        then show "y \<in> (\<Union>inner \<in> set running. set (emitted inner))"
        proof
          assume "inner = Observable xs (ending (running ! i))"
          with inner(2) have "y \<in> set (emitted (running ! i))" using Cons by simp
          with here show ?thesis by blast
        next
          assume "inner \<in> set running"
          with inner(2) show ?thesis by blast
        qed
      qed
      moreover have "x \<in> (\<Union>inner \<in> set running. set (emitted inner))"
        using here Cons by (metis UN_I list.set_intros(1))
      ultimately show ?thesis
        using "1.IH"(3) [OF False i_def Cons] eq by auto
    next
      case Nil
      have sub: "(\<Union>inner \<in> set (without i running). set (emitted inner)) \<subseteq> (\<Union>inner \<in> set running. set (emitted inner))"
        using set_without [of i running] by blast
      show ?thesis
      proof (cases "ending (running ! i)")
        case Completed
        have "mergeAll sched silent running = mergeAll (tl sched) silent (without i running)"
          using False Nil Completed by (subst mergeAll.simps) (simp add: i_def Let_def)
        then show ?thesis
          using "1.IH"(1) [OF False i_def Nil Completed] sub by auto
      next
        case (Failed e)
        have "mergeAll sched silent running = Observable [] (ending.Failed e)"
          using False Nil Failed by (subst mergeAll.simps) (simp add: i_def Let_def)
        then show ?thesis by simp
      next
        case Pending
        have "mergeAll sched silent running = mergeAll (tl sched) True (without i running)"
          using False Nil Pending by (subst mergeAll.simps) (simp add: i_def Let_def)
        then show ?thesis
          using "1.IH"(2) [OF False i_def Nil Pending] sub by auto
      qed
    qed
  qed
qed


section \<open>The memos and the evaluation of one application\<close>

lemma insert_by_compare:
  "insert_by (\<lambda>left right. StringUtils_compare (f left) (f right)) x xs = insort_key f x xs"
  by (induction xs) (auto simp: StringUtils_compare_def)

lemma Array_sort_compare:
  "Array_sort (\<lambda>left right. StringUtils_compare (f left) (f right)) xs = sort_key f xs"
proof -
  have "insert_by (\<lambda>left right. StringUtils_compare (f left) (f right)) = insort_key f"
    by (intro ext) (rule insert_by_compare)
  then show ?thesis by (simp add: Array_sort_def sort_key_def)
qed

lemma getCriteria_catalog: "fst (getCriteria this) = catalog_of this"
  by (simp add: getCriteria_def catalog_of_def split: option.splits)

lemma getCriteria_state:
  "argv (snd (getCriteria this)) = argv this"
  "memo_enabledCriteria (snd (getCriteria this)) = memo_enabledCriteria this"
  "console (snd (getCriteria this)) = console this"
  "catalog_of (snd (getCriteria this)) = catalog_of this"
  by (simp_all add: getCriteria_def catalog_of_def split: option.splits)

lemma catalog_of_memo: "catalog_of (c\<lparr>memo_enabledCriteria := e\<rparr>) = catalog_of c"
  by (simp add: catalog_of_def split: option.splits)

lemma getEnabledCriteria_unset:
  assumes "memo_enabledCriteria this = None"
  shows "fst (getEnabledCriteria this) = enabledCriteria_of this"
    and "memo_enabledCriteria (snd (getEnabledCriteria this)) = Some (enabledCriteria_of this)"
    and "argv (snd (getEnabledCriteria this)) = argv this"
    and "console (snd (getEnabledCriteria this)) = console this"
    and "catalog_of (snd (getEnabledCriteria this)) = catalog_of this"
proof -
  have "getEnabledCriteria this =
          (enabledCriteria_of this, (snd (getCriteria this))\<lparr>memo_enabledCriteria := Some (enabledCriteria_of this)\<rparr>)"
    using assms getCriteria_catalog [of this] getCriteria_state(1) [of this]
    by (simp add: getEnabledCriteria_def enabledCriteria_of_def runtimeEvaluationEnabled_def
          Array_sort_compare split_beta Let_def)
  then show "fst (getEnabledCriteria this) = enabledCriteria_of this"
    and "memo_enabledCriteria (snd (getEnabledCriteria this)) = Some (enabledCriteria_of this)"
    and "argv (snd (getEnabledCriteria this)) = argv this"
    and "console (snd (getEnabledCriteria this)) = console this"
    and "catalog_of (snd (getEnabledCriteria this)) = catalog_of this"
    using getCriteria_state [of this] catalog_of_memo [where c = "snd (getCriteria this)"]
    by simp_all
qed

lemma getEnabledCriteria_set:
  assumes "memo_enabledCriteria this = Some e"
  shows "getEnabledCriteria this = (e, this)"
  using assms by (simp add: getEnabledCriteria_def)

lemma enabledCriteria_of_cong:
  "argv c' = argv c \<Longrightarrow> catalog_of c' = catalog_of c \<Longrightarrow> enabledCriteria_of c' = enabledCriteria_of c"
  by (simp add: enabledCriteria_of_def)

lemma getEnabledCriteria_consistent:
  assumes "consistent this"
  shows "fst (getEnabledCriteria this) = enabledCriteria_of this"
    and "memo_enabledCriteria (snd (getEnabledCriteria this)) = Some (enabledCriteria_of this)"
    and "argv (snd (getEnabledCriteria this)) = argv this"
    and "console (snd (getEnabledCriteria this)) = console this"
    and "catalog_of (snd (getEnabledCriteria this)) = catalog_of this"
    and "enabledCriteria_of (snd (getEnabledCriteria this)) = enabledCriteria_of this"
    and "consistent (snd (getEnabledCriteria this))"
proof -
  show 1: "fst (getEnabledCriteria this) = enabledCriteria_of this"
    and 2: "memo_enabledCriteria (snd (getEnabledCriteria this)) = Some (enabledCriteria_of this)"
    and 3: "argv (snd (getEnabledCriteria this)) = argv this"
    and 4: "console (snd (getEnabledCriteria this)) = console this"
    and 5: "catalog_of (snd (getEnabledCriteria this)) = catalog_of this"
    using assms getEnabledCriteria_unset [of this] getEnabledCriteria_set [of this]
    by (cases "memo_enabledCriteria this"; simp add: consistent_def)+
  show 6: "enabledCriteria_of (snd (getEnabledCriteria this)) = enabledCriteria_of this"
    using 3 5 by (rule enabledCriteria_of_cong)
  show "consistent (snd (getEnabledCriteria this))"
    using 2 6 by (simp add: consistent_def)
qed

lemma foldl_snoc: "foldl (\<lambda>acc x. acc @ [x]) acc xs = acc @ xs"
  by (induction xs arbitrary: acc) simp_all

lemma evaluateCriteria_eq:
  assumes "consistent this"
  shows "fst (evaluateCriteria sched a m es this) =
           (case ending (evaluations sched a m es (enabledCriteria_of this)) of
              Completed \<Rightarrow> Observable [\<lparr> app = a, quality = sort_key qc_reference (emitted (evaluations sched a m es (enabledCriteria_of this))) \<rparr>] Completed
            | Failed err \<Rightarrow> Observable [] (Failed err)
            | Pending \<Rightarrow> Observable [] Pending)"
    and "snd (evaluateCriteria sched a m es this) = snd (getEnabledCriteria this)"
proof -
  let ?ev = "evaluations sched a m es (enabledCriteria_of this)"
  let ?inner = "Rx_map (\<lambda>quality. \<lparr> app = a, quality = sort_key qc_reference quality \<rparr>)
                  (Rx_reduce (\<lambda>acc criterion. acc @ [criterion]) [] ?ev)"
  have "results_of a m es = (\<lambda>c. Rx_map (QualityCriterion (description c) (reference c)) (evaluate c a m es))"
    by (intro ext) (simp add: results_of_def)
  then have eq: "evaluateCriteria sched a m es this =
          (mergeAll [] False [?inner, Observable [] Completed], snd (getEnabledCriteria this))"
    using getEnabledCriteria_consistent(1) [OF assms]
    by (simp add: evaluateCriteria_def Rx_flatMapS_def Rx_of_def split_beta Let_def Array_sort_compare
          evaluations_def)
  have "mergeAll [] False [?inner, Observable [] Completed] = ?inner"
    by (rule mergeAll_only)
  with eq show "snd (evaluateCriteria sched a m es this) = snd (getEnabledCriteria this)"
    and "fst (evaluateCriteria sched a m es this) =
           (case ending ?ev of
              Completed \<Rightarrow> Observable [\<lparr> app = a, quality = sort_key qc_reference (emitted ?ev) \<rparr>] Completed
            | Failed err \<Rightarrow> Observable [] (Failed err)
            | Pending \<Rightarrow> Observable [] Pending)"
    by (simp_all add: Rx_map_def Rx_reduce_def foldl_snoc split: ending.splits)
qed

lemma consistent_unset: "memo_enabledCriteria this = None \<Longrightarrow> consistent this"
  by (simp add: consistent_def)

lemma evaluations_failed:
  assumes "c \<in> set enabledCriteria" and "ending (evaluate c a m es) = Failed err"
  shows "\<exists>err. ending (evaluations sched a m es enabledCriteria) = Failed err"
proof -
  have "results_of a m es c \<in> set (map (results_of a m es) enabledCriteria @ [Observable [] Completed])"
    using assms(1) by simp
  moreover have "ending (results_of a m es c) = Failed err"
    using assms(2) by (simp add: results_of_def Rx_map_def)
  ultimately show ?thesis
    unfolding evaluations_def Rx_flatMap_def Rx_from_def
    by (intro mergeAll_failed) (auto simp del: set_append)
qed

lemma default_catalog_minimum_length:
  assumes "memo_criteria this = None"
  shows "\<exists>c \<in> set (enabledCriteria_of this). \<forall>a m es. evaluate c a m es =
           (case app_description a of
              None \<Rightarrow> Rx_throw (TypeError ''Cannot read property 'length' of undefined'')
            | Some d \<Rightarrow> evaluateMinimumLength DESCRIPTION_MIN_LENGTH (length d))"
  using assms
  by (simp add: enabledCriteria_of_def catalog_of_def catalog_def Object_values_def)

lemma evaluateUsage_runtime_flag: "evaluateUsage (args\<lparr>evaluate_runtime := b\<rparr>) = evaluateUsage args"
  by (intro ext) (simp add: evaluateUsage_def split: option.splits)

lemma catalog_runtime_flag: "catalog (args\<lparr>evaluate_runtime := b\<rparr>) = catalog args"
  by (simp add: catalog_def evaluateUsage_runtime_flag)

lemma catalog_of_runtime_flag:
  "catalog_of (this\<lparr>argv := (argv this)\<lparr>evaluate_runtime := b\<rparr>\<rparr>) = catalog_of this"
  by (simp add: catalog_of_def catalog_runtime_flag split: option.splits)

lemma enabledCriteria_of_runtime_flag:
  "enabledCriteria_of (this\<lparr>argv := (argv this)\<lparr>evaluate_runtime := b\<rparr>\<rparr>) =
     sort_key reference (filter (\<lambda>c. enabled c \<and> (\<not> atRuntime c \<or> b)) (Object_values (catalog_of this)))"
  by (simp add: enabledCriteria_of_def catalog_of_runtime_flag)

lemma default_enabledCriteria_off:
  "map reference (enabledCriteria_of (new_command (args\<lparr>evaluate_runtime := False\<rparr>))) = [''APP-DF01'', ''APP-DF02'']"
  by (simp add: enabledCriteria_of_def catalog_of_def new_command_def catalog_def Object_values_def)

lemma default_enabledCriteria_on:
  "map reference (enabledCriteria_of (new_command (args\<lparr>evaluate_runtime := True\<rparr>))) = [''APP-DF01'', ''APP-DF02'', ''APP-R00'']"
  by (simp add: enabledCriteria_of_def catalog_of_def new_command_def catalog_def Object_values_def)

lemma delivered_end: "delivered (inners @ [Observable [] e]) = delivered inners"
  by (simp add: delivered_def)

lemma evaluations_completed:
  assumes "ending (evaluations sched a m es enabledCriteria) = Completed"
  shows "\<forall>c \<in> set enabledCriteria. ending (evaluate c a m es) = Completed"
    and "mset (emitted (evaluations sched a m es enabledCriteria)) = delivered (map (results_of a m es) enabledCriteria)"
proof -
  let ?running = "map (results_of a m es) enabledCriteria @ [Observable [] Completed]"
  have merged: "evaluations sched a m es enabledCriteria = mergeAll sched False ?running"
    by (simp add: evaluations_def Rx_flatMap_def Rx_from_def)
  with assms have "ending (mergeAll sched False ?running) = Completed" by simp
  from mergeAll_completed [OF this]
  have all: "\<forall>inner \<in> set ?running. ending inner = Completed"
    and eq: "mset (emitted (mergeAll sched False ?running)) = delivered ?running" by simp_all
  show "\<forall>c \<in> set enabledCriteria. ending (evaluate c a m es) = Completed"
  proof
    fix c assume "c \<in> set enabledCriteria"
    then have "results_of a m es c \<in> set ?running" by simp
    with all have "ending (results_of a m es c) = Completed" by blast
    then show "ending (evaluate c a m es) = Completed" by (simp add: results_of_def Rx_map_def)
  qed
  show "mset (emitted (evaluations sched a m es enabledCriteria)) = delivered (map (results_of a m es) enabledCriteria)"
    using eq merged by (simp add: delivered_end)
qed

lemma size_delivered_results:
  "size (delivered (map (results_of a m es) enabledCriteria)) =
     sum_list (map (\<lambda>c. length (emitted (evaluate c a m es))) enabledCriteria)"
  by (induction enabledCriteria) (simp_all add: delivered_def results_of_def Rx_map_def)

lemma references_delivered:
  "image_mset qc_reference (delivered (map (results_of a m es) enabledCriteria)) =
     mset (concat (map (\<lambda>c. replicate (length (emitted (evaluate c a m es))) (reference c)) enabledCriteria))"
proof (induction enabledCriteria)
  case Nil
  show ?case by (simp add: delivered_def)
next
  case (Cons c cs)
  have "map qc_reference (emitted (results_of a m es c)) = replicate (length (emitted (evaluate c a m es))) (reference c)"
    by (simp add: results_of_def Rx_map_def QualityCriterion_def map_replicate_const comp_def)
  then have "image_mset qc_reference (mset (emitted (results_of a m es c))) =
               mset (replicate (length (emitted (evaluate c a m es))) (reference c))"
    by (metis mset_map)
  with Cons show ?case by (simp add: delivered_def)
qed

lemma one_each:
  assumes "\<forall>c \<in> set enabledCriteria. length (emitted (evaluate c a m es)) = 1"
  shows "concat (map (\<lambda>c. replicate (length (emitted (evaluate c a m es))) (reference c)) enabledCriteria)
           = map reference enabledCriteria"
  using assms by (induction enabledCriteria) simp_all

lemma report_emitted:
  assumes "consistent this" and "r \<in> set (emitted (fst (evaluateCriteria sched a m es this)))"
  shows "ending (evaluations sched a m es (enabledCriteria_of this)) = Completed"
    and "r = \<lparr> app = a, quality = sort_key qc_reference (emitted (evaluations sched a m es (enabledCriteria_of this))) \<rparr>"
    and "fst (evaluateCriteria sched a m es this) = Observable [r] Completed"
  using assms(2) evaluateCriteria_eq(1) [OF assms(1), of sched a m es]
  by (cases "ending (evaluations sched a m es (enabledCriteria_of this))"; simp)+

lemma sort_key_references: "map f (sort_key f xs) = sort (map f xs)"
  by (rule sym, rule properties_for_sort) simp_all

lemma sum_list_ones: "\<forall>x \<in> set xs. g x = (1::nat) \<Longrightarrow> sum_list (map g xs) = length xs"
  by (induction xs) simp_all

lemma sorted_enabledCriteria: "sorted (map reference (enabledCriteria_of this))"
  by (simp add: enabledCriteria_of_def)

section \<open>The pipeline and the reporter\<close>

lemma raw_lines_append: "raw_lines (xs @ ys) = raw_lines xs @ raw_lines ys"
  by (simp add: raw_lines_def)

lemma display_keeps:
  "argv (displayInfo message c) = argv c"
  "memo_criteria (displayInfo message c) = memo_criteria c"
  "memo_enabledCriteria (displayInfo message c) = memo_enabledCriteria c"
  "argv (displayRaw message c) = argv c"
  "memo_criteria (displayRaw message c) = memo_criteria c"
  "memo_enabledCriteria (displayRaw message c) = memo_enabledCriteria c"
  by (simp_all add: displayInfo_def displayRaw_def)

lemma same_memos:
  assumes "argv c' = argv c" and "memo_criteria c' = memo_criteria c"
    and "memo_enabledCriteria c' = memo_enabledCriteria c"
  shows "enabledCriteria_of c' = enabledCriteria_of c" and "consistent c' = consistent c"
proof -
  have "catalog_of c' = catalog_of c"
    using assms(1,2) by (simp add: catalog_of_def split: option.splits)
  with assms(1) show e: "enabledCriteria_of c' = enabledCriteria_of c"
    by (rule enabledCriteria_of_cong)
  show "consistent c' = consistent c"
    using e assms(3) by (simp add: consistent_def)
qed

lemma foldl_display_keeps:
  assumes "\<And>x c. argv (effect x c) = argv c"
    and "\<And>x c. memo_criteria (effect x c) = memo_criteria c"
    and "\<And>x c. memo_enabledCriteria (effect x c) = memo_enabledCriteria c"
  shows "argv (foldl (\<lambda>c x. effect x c) c xs) = argv c
         \<and> memo_criteria (foldl (\<lambda>c x. effect x c) c xs) = memo_criteria c
         \<and> memo_enabledCriteria (foldl (\<lambda>c x. effect x c) c xs) = memo_enabledCriteria c"
  using assms by (induction xs arbitrary: c) simp_all

lemma foldl_displayInfo_console:
  "raw_lines (console (foldl (\<lambda>c x. displayInfo (f x) c) c xs)) = raw_lines (console c)"
  by (induction xs arbitrary: c) (simp_all add: displayInfo_def raw_lines_def)

lemma foldl_displayRaw_console:
  "console (foldl (\<lambda>c x. displayRaw (f x) c) c xs) = console c @ map (\<lambda>x. Raw (f x)) xs"
  by (induction xs arbitrary: c) (simp_all add: displayRaw_def)

lemma raw_lines_Raw: "raw_lines (map (\<lambda>x. Raw (f x)) xs) = map f xs"
  by (induction xs) (simp_all add: raw_lines_def)

lemma evaluateCriteria_state:
  assumes "consistent c"
  shows "consistent (snd (evaluateCriteria sched a m es c))"
    and "enabledCriteria_of (snd (evaluateCriteria sched a m es c)) = enabledCriteria_of c"
    and "console (snd (evaluateCriteria sched a m es c)) = console c"
  using getEnabledCriteria_consistent [OF assms] evaluateCriteria_eq(2) [OF assms, of sched a m es]
  by simp_all

lemma projectAll_evaluateCriteria:
  assumes "consistent s"
  shows "consistent (snd (projectAll (\<lambda>app c. evaluateCriteria (order app) app m es c) xs s))
         \<and> enabledCriteria_of (snd (projectAll (\<lambda>app c. evaluateCriteria (order app) app m es c) xs s)) = enabledCriteria_of s
         \<and> console (snd (projectAll (\<lambda>app c. evaluateCriteria (order app) app m es c) xs s)) = console s
         \<and> (\<forall>inner \<in> set (fst (projectAll (\<lambda>app c. evaluateCriteria (order app) app m es c) xs s)).
               \<exists>c0 a. consistent c0 \<and> enabledCriteria_of c0 = enabledCriteria_of s \<and> a \<in> set xs
                  \<and> inner = fst (evaluateCriteria (order a) a m es c0))"
  using assms
proof (induction xs arbitrary: s)
  case Nil
  then show ?case by simp
next
  case (Cons x xs)
  let ?s1 = "snd (evaluateCriteria (order x) x m es s)"
  have s1: "consistent ?s1" "enabledCriteria_of ?s1 = enabledCriteria_of s" "console ?s1 = console s"
    using evaluateCriteria_state [OF Cons.prems] by simp_all
  have step: "projectAll (\<lambda>app c. evaluateCriteria (order app) app m es c) (x # xs) s =
          (fst (evaluateCriteria (order x) x m es s) # fst (projectAll (\<lambda>app c. evaluateCriteria (order app) app m es c) xs ?s1),
           snd (projectAll (\<lambda>app c. evaluateCriteria (order app) app m es c) xs ?s1))"
    by (simp add: split_beta Let_def)
  from Cons.IH [OF s1(1)] s1(2,3)
  have ih: "consistent (snd (projectAll (\<lambda>app c. evaluateCriteria (order app) app m es c) xs ?s1))"
    "enabledCriteria_of (snd (projectAll (\<lambda>app c. evaluateCriteria (order app) app m es c) xs ?s1)) = enabledCriteria_of s"
    "console (snd (projectAll (\<lambda>app c. evaluateCriteria (order app) app m es c) xs ?s1)) = console s"
    "\<forall>inner \<in> set (fst (projectAll (\<lambda>app c. evaluateCriteria (order app) app m es c) xs ?s1)).
               \<exists>c0 a. consistent c0 \<and> enabledCriteria_of c0 = enabledCriteria_of s \<and> a \<in> set xs
                  \<and> inner = fst (evaluateCriteria (order a) a m es c0)"
    by simp_all
  have "\<forall>inner \<in> set (fst (projectAll (\<lambda>app c. evaluateCriteria (order app) app m es c) (x # xs) s)).
               \<exists>c0 a. consistent c0 \<and> enabledCriteria_of c0 = enabledCriteria_of s \<and> a \<in> set (x # xs)
                  \<and> inner = fst (evaluateCriteria (order a) a m es c0)"
  proof
    fix inner assume "inner \<in> set (fst (projectAll (\<lambda>app c. evaluateCriteria (order app) app m es c) (x # xs) s))"
    then consider "inner = fst (evaluateCriteria (order x) x m es s)"
      | "inner \<in> set (fst (projectAll (\<lambda>app c. evaluateCriteria (order app) app m es c) xs ?s1))"
      unfolding step by auto
    then show "\<exists>c0 a. consistent c0 \<and> enabledCriteria_of c0 = enabledCriteria_of s \<and> a \<in> set (x # xs)
                  \<and> inner = fst (evaluateCriteria (order a) a m es c0)"
    proof cases
      case 1
      with Cons.prems show ?thesis by (intro exI [of _ s] exI [of _ x]) simp
    next
      case 2
      with ih(4) obtain c0 a where "consistent c0" "enabledCriteria_of c0 = enabledCriteria_of s" "a \<in> set xs"
        "inner = fst (evaluateCriteria (order a) a m es c0)" by blast
      then show ?thesis by (intro exI [of _ c0] exI [of _ a]) simp
    qed
  qed
  with ih(1,2,3) show ?case unfolding step by simp
qed

lemma pipeline_reports:
  assumes "consistent this"
  shows "consistent (snd (pipeline sch es m this))"
    and "enabledCriteria_of (snd (pipeline sch es m this)) = enabledCriteria_of this"
    and "raw_lines (console (snd (pipeline sch es m this))) = raw_lines (console this)"
    and "\<forall>r \<in> set (emitted (fst (pipeline sch es m this))).
           \<exists>c0 a. consistent c0 \<and> enabledCriteria_of c0 = enabledCriteria_of this
                  \<and> r \<in> set (emitted (fst (evaluateCriteria (criteria_order sch a) a m es c0)))"
proof -
  define applications where "applications = discover sch m (argv this)"
  define info where "info = (\<lambda>app :: application. ''Get quality metrics for Application '' @ [CHR 0x22] @ app_name app @ [CHR 0x22]
                          @ '' ('' @ app_id app @ '')'')"
  define this1 where "this1 = foldl (\<lambda>c app. displayInfo (info app) c) this (emitted applications)"
  define project where "project = (\<lambda>app c. evaluateCriteria (criteria_order sch app) app m es c)"
  have pipe: "pipeline sch es m this =
          (mergeAll (reports_order sch) False
             (fst (projectAll project (emitted applications) this1) @ [Observable [] (ending applications)]),
           snd (projectAll project (emitted applications) this1))"
    unfolding pipeline_def Rx_tap_def Rx_flatMapS_def this1_def info_def project_def applications_def
    by (simp add: split_beta Let_def)
  have keeps: "argv this1 = argv this \<and> memo_criteria this1 = memo_criteria this
               \<and> memo_enabledCriteria this1 = memo_enabledCriteria this"
    unfolding this1_def
    by (rule foldl_display_keeps [where effect = "\<lambda>app c. displayInfo (info app) c"]) (simp_all add: display_keeps)
  then have this1: "consistent this1" "enabledCriteria_of this1 = enabledCriteria_of this"
    using same_memos [of this1 this] assms by simp_all
  have raw1: "raw_lines (console this1) = raw_lines (console this)"
    unfolding this1_def by (rule foldl_displayInfo_console)
  from projectAll_evaluateCriteria [OF this1(1), of "criteria_order sch" m es "emitted applications"]
  have p: "consistent (snd (projectAll project (emitted applications) this1))"
    "enabledCriteria_of (snd (projectAll project (emitted applications) this1)) = enabledCriteria_of this1"
    "console (snd (projectAll project (emitted applications) this1)) = console this1"
    "\<forall>inner \<in> set (fst (projectAll project (emitted applications) this1)).
               \<exists>c0 a. consistent c0 \<and> enabledCriteria_of c0 = enabledCriteria_of this1 \<and> a \<in> set (emitted applications)
                  \<and> inner = fst (evaluateCriteria (criteria_order sch a) a m es c0)"
    unfolding project_def by simp_all
  show "consistent (snd (pipeline sch es m this))"
    and "enabledCriteria_of (snd (pipeline sch es m this)) = enabledCriteria_of this"
    and "raw_lines (console (snd (pipeline sch es m this))) = raw_lines (console this)"
    using p(1,2,3) this1(2) raw1 by (simp_all add: pipe)
  show "\<forall>r \<in> set (emitted (fst (pipeline sch es m this))).
           \<exists>c0 a. consistent c0 \<and> enabledCriteria_of c0 = enabledCriteria_of this
                  \<and> r \<in> set (emitted (fst (evaluateCriteria (criteria_order sch a) a m es c0)))"
  proof
    fix r assume "r \<in> set (emitted (fst (pipeline sch es m this)))"
    then have "r \<in> (\<Union>inner \<in> set (fst (projectAll project (emitted applications) this1) @ [Observable [] (ending applications)]).
                       set (emitted inner))"
      using mergeAll_emitted [of "reports_order sch" False
              "fst (projectAll project (emitted applications) this1) @ [Observable [] (ending applications)]"]
      unfolding pipe by auto
    then obtain inner where "inner \<in> set (fst (projectAll project (emitted applications) this1))" "r \<in> set (emitted inner)"
      by auto
    with p(4) this1(2) show "\<exists>c0 a. consistent c0 \<and> enabledCriteria_of c0 = enabledCriteria_of this
                  \<and> r \<in> set (emitted (fst (evaluateCriteria (criteria_order sch a) a m es c0)))"
      by metis
  qed
qed

lemma report_references:
  assumes "consistent this"
    and "r \<in> set (emitted (fst (evaluateCriteria sched a m es this)))"
  shows "app r = a"
    and "sorted (map qc_reference (quality r))"
    and "\<forall>c \<in> set (enabledCriteria_of this). length (emitted (evaluate c a m es)) = 1 \<Longrightarrow>
           map qc_reference (quality r) = map reference (enabledCriteria_of this)"
proof -
  let ?E = "enabledCriteria_of this"
  let ?ev = "evaluations sched a m es ?E"
  have completed: "ending ?ev = Completed"
    and r: "r = \<lparr> app = a, quality = sort_key qc_reference (emitted ?ev) \<rparr>"
    using report_emitted [OF assms] by simp_all
  show "app r = a" using r by simp
  show sorted: "sorted (map qc_reference (quality r))" using r by simp
  assume one: "\<forall>c \<in> set ?E. length (emitted (evaluate c a m es)) = 1"
  have "mset (map qc_reference (quality r)) = image_mset qc_reference (mset (emitted ?ev))"
    using r by simp
  also have "\<dots> = mset (map reference ?E)"
    using evaluations_completed(2) [OF completed] references_delivered [of a m es ?E] one_each [OF one]
    by simp
  finally have "mset (map qc_reference (quality r)) = mset (map reference ?E)" .
  then have "sort (map reference ?E) = map qc_reference (quality r)"
    using sorted by (rule properties_for_sort)
  moreover have "sort (map reference ?E) = map reference ?E"
    using sorted_enabledCriteria [of this] by (simp add: sort_key_id_if_sorted)
  ultimately show "map qc_reference (quality r) = map reference ?E" by simp
qed

lemma raw_lines_simps:
  "raw_lines [] = []"
  "raw_lines (Info message # out) = raw_lines out"
  "raw_lines (Raw line # out) = line # raw_lines out"
  "raw_lines (Err e # out) = raw_lines out"
  by (simp_all add: raw_lines_def)

lemma accumulated: "qualityApps (foldl (\<lambda>r next. doNext next r) r0 reports) = qualityApps r0 @ reports"
  by (induction reports arbitrary: r0) (simp_all add: doNext_def)

lemma doComplete_console:
  assumes "consistent c"
  shows "console (doComplete r c) =
           console c @ [Info ''Applications quality, in CSV format:'', Raw (csv_header (enabledCriteria_of c))]
             @ map (\<lambda>q. Raw (csv_row q)) (qualityApps r)"
    and "consistent (doComplete r c)"
    and "enabledCriteria_of (doComplete r c) = enabledCriteria_of c"
proof -
  define c1 where "c1 = displayInfo ''Applications quality, in CSV format:'' c"
  define c2 where "c2 = snd (getEnabledCriteria c1)"
  define c3 where "c3 = displayRaw (csv_header (enabledCriteria_of c)) c2"
  have c1: "consistent c1" "enabledCriteria_of c1 = enabledCriteria_of c"
    "console c1 = console c @ [Info ''Applications quality, in CSV format:'']"
    using same_memos [of c1 c] assms by (simp_all add: c1_def display_keeps) (simp add: displayInfo_def)
  have c2: "consistent c2" "enabledCriteria_of c2 = enabledCriteria_of c" "console c2 = console c1"
    "fst (getEnabledCriteria c1) = enabledCriteria_of c"
    using getEnabledCriteria_consistent [OF c1(1)] c1(2) by (simp_all add: c2_def)
  have c3: "consistent c3" "enabledCriteria_of c3 = enabledCriteria_of c"
    "console c3 = console c2 @ [Raw (csv_header (enabledCriteria_of c))]"
    using same_memos [of c3 c2] c2(1,2) by (simp_all add: c3_def display_keeps) (simp add: displayRaw_def)
  have eq: "doComplete r c = foldl (\<lambda>c q. displayRaw (csv_row q) c) c3 (qualityApps r)"
    unfolding doComplete_def c3_def c2_def c1_def
    using c2(4) [unfolded c1_def] by (simp add: split_beta Let_def)
  show "console (doComplete r c) =
           console c @ [Info ''Applications quality, in CSV format:'', Raw (csv_header (enabledCriteria_of c))]
             @ map (\<lambda>q. Raw (csv_row q)) (qualityApps r)"
    unfolding eq using c1(3) c2(3) c3(3) by (simp add: foldl_displayRaw_console)
  have keeps: "argv (doComplete r c) = argv c3 \<and> memo_criteria (doComplete r c) = memo_criteria c3
               \<and> memo_enabledCriteria (doComplete r c) = memo_enabledCriteria c3"
    unfolding eq
    by (rule foldl_display_keeps [where effect = "\<lambda>q c. displayRaw (csv_row q) c"]) (simp_all add: display_keeps)
  then show "consistent (doComplete r c)" and "enabledCriteria_of (doComplete r c) = enabledCriteria_of c"
    using same_memos [of "doComplete r c" c3] c3(1,2) by simp_all
qed

lemma subscribe_new:
  "fst (subscribe src new_reporter c) = \<lparr> qualityApps = emitted src \<rparr>"
  "fst (snd (subscribe src new_reporter c)) =
     (case ending src of
        Completed \<Rightarrow> doComplete \<lparr> qualityApps = emitted src \<rparr> c
      | Failed e \<Rightarrow> c\<lparr>console := console c @ [Err e]\<rparr>
      | Pending \<Rightarrow> c)"
  "snd (snd (subscribe src new_reporter c)) =
     (case ending src of Completed \<Rightarrow> Succeeded | Failed e \<Rightarrow> Aborted e | Pending \<Rightarrow> Unfinished)"
proof -
  have "foldl (\<lambda>r next. doNext next r) new_reporter (emitted src) = \<lparr> qualityApps = emitted src \<rparr>"
    using accumulated [of new_reporter "emitted src"] by (simp add: new_reporter_def)
  then show "fst (subscribe src new_reporter c) = \<lparr> qualityApps = emitted src \<rparr>"
    "fst (snd (subscribe src new_reporter c)) =
     (case ending src of
        Completed \<Rightarrow> doComplete \<lparr> qualityApps = emitted src \<rparr> c
      | Failed e \<Rightarrow> c\<lparr>console := console c @ [Err e]\<rparr>
      | Pending \<Rightarrow> c)"
    "snd (snd (subscribe src new_reporter c)) =
     (case ending src of Completed \<Rightarrow> Succeeded | Failed e \<Rightarrow> Aborted e | Pending \<Rightarrow> Unfinished)"
    by (simp_all add: subscribe_def Let_def split: ending.splits)
qed

lemma run_parts:
  "definition_run sch createInstance m this =
     subscribe (fst (pipeline sch (connect createInstance (argv this)) m this)) new_reporter
       (snd (pipeline sch (connect createInstance (argv this)) m this))"
  by (simp add: definition_run_def split_beta Let_def)

lemma run_result:
  assumes "consistent this"
    and "definition_run sch createInstance m this = (rep, this', outcome)"
  shows "qualityApps rep = emitted (fst (pipeline sch (connect createInstance (argv this)) m this))"
    and "outcome = (case ending (fst (pipeline sch (connect createInstance (argv this)) m this)) of
                      Completed \<Rightarrow> Succeeded | Failed e \<Rightarrow> Aborted e | Pending \<Rightarrow> Unfinished)"
    and "consistent this'"
    and "enabledCriteria_of this' = enabledCriteria_of this"
    and "raw_lines (console this') = raw_lines (console this) @
           (if outcome = Succeeded then csv_header (enabledCriteria_of this) # map csv_row (qualityApps rep) else [])"
proof -
  let ?es = "connect createInstance (argv this)"
  let ?reports = "fst (pipeline sch ?es m this)"
  let ?this2 = "snd (pipeline sch ?es m this)"
  have run: "subscribe ?reports new_reporter ?this2 = (rep, this', outcome)"
    using assms(2) by (simp add: run_parts)
  have this2: "consistent ?this2" "enabledCriteria_of ?this2 = enabledCriteria_of this"
    "raw_lines (console ?this2) = raw_lines (console this)"
    using pipeline_reports(1,2,3) [OF assms(1)] by simp_all
  have parts: "fst (subscribe ?reports new_reporter ?this2) = rep"
    "fst (snd (subscribe ?reports new_reporter ?this2)) = this'"
    "snd (snd (subscribe ?reports new_reporter ?this2)) = outcome"
    using run by simp_all
  have rep: "rep = \<lparr> qualityApps = emitted ?reports \<rparr>"
    using parts(1) by (simp only: subscribe_new(1))
  then show apps: "qualityApps rep = emitted ?reports" by simp
  show outcome: "outcome = (case ending ?reports of
                      Completed \<Rightarrow> Succeeded | Failed e \<Rightarrow> Aborted e | Pending \<Rightarrow> Unfinished)"
    using parts(3) by (simp only: subscribe_new(3))
  have this': "this' = (case ending ?reports of
        Completed \<Rightarrow> doComplete rep ?this2
      | Failed e \<Rightarrow> ?this2\<lparr>console := console ?this2 @ [Err e]\<rparr>
      | Pending \<Rightarrow> ?this2)"
    using parts(2) unfolding rep by (simp only: subscribe_new(2))
  show "consistent this'" and "enabledCriteria_of this' = enabledCriteria_of this"
    and "raw_lines (console this') = raw_lines (console this) @
           (if outcome = Succeeded then csv_header (enabledCriteria_of this) # map csv_row (qualityApps rep) else [])"
  proof (atomize (full), cases "ending ?reports")
    case Completed
    then show "consistent this' \<and> enabledCriteria_of this' = enabledCriteria_of this \<and>
       raw_lines (console this') = raw_lines (console this) @
           (if outcome = Succeeded then csv_header (enabledCriteria_of this) # map csv_row (qualityApps rep) else [])"
      using this' outcome doComplete_console [OF this2(1), of rep] this2(2,3)
      by (simp add: raw_lines_append raw_lines_Raw raw_lines_simps)
  next
    case (Failed e)
    then have "this' = ?this2\<lparr>console := console ?this2 @ [Err e]\<rparr>" using this' by simp
    then show "consistent this' \<and> enabledCriteria_of this' = enabledCriteria_of this \<and>
       raw_lines (console this') = raw_lines (console this) @
           (if outcome = Succeeded then csv_header (enabledCriteria_of this) # map csv_row (qualityApps rep) else [])"
      using same_memos [of this' ?this2] this2 outcome Failed
      by (simp add: raw_lines_append raw_lines_simps)
  next
    case Pending
    then show "consistent this' \<and> enabledCriteria_of this' = enabledCriteria_of this \<and>
       raw_lines (console this') = raw_lines (console this) @
           (if outcome = Succeeded then csv_header (enabledCriteria_of this) # map csv_row (qualityApps rep) else [])"
      using this' outcome this2 by simp
  qed
qed

lemma separators_append: "separators (a @ b) = separators a + separators b"
  by (simp add: separators_def)

lemma separators_none: "separators s = 0 \<longleftrightarrow> CHR '','' \<notin> set s"
  by (induction s) (auto simp: separators_def CSV_SEPARATOR_def)

lemma separators_flag: "separators (Boolean_toString b) = 0"
  by (simp add: separators_def Boolean_toString_def CSV_SEPARATOR_def)

lemma separators_join_Cons:
  "separators (Array_join CSV_SEPARATOR (x # xs)) = length xs + sum_list (map separators (x # xs))"
proof (induction xs arbitrary: x)
  case Nil
  show ?case by simp
next
  case (Cons y ys)
  have "separators CSV_SEPARATOR = 1"
    by (simp add: separators_def CSV_SEPARATOR_def)
  with Cons [of y] show ?case
    by (simp add: separators_append)
qed

lemma separators_join:
  "separators (Array_join CSV_SEPARATOR xs) = (length xs - 1) + sum_list (map separators xs)"
proof (cases xs)
  case Nil
  then show ?thesis by (simp add: separators_def)
next
  case (Cons y ys)
  then show ?thesis by (simp add: separators_join_Cons)
qed

lemma separators_flags:
  "separators (Array_join CSV_SEPARATOR (map (\<lambda>c. Boolean_toString (complied c)) qs)) = length qs - 1"
proof -
  have "sum_list (map separators (map (\<lambda>c. Boolean_toString (complied c)) qs)) = 0"
    by (induction qs) (simp_all add: separators_flag)
  then show ?thesis
    using separators_join [of "map (\<lambda>c. Boolean_toString (complied c)) qs"] by simp
qed

lemma fields_row:
  "field_count (csv_row r) = 2 + max 1 (length (quality r)) + separators (app_id (app r)) + separators (app_name (app r))"
proof -
  have "separators CSV_SEPARATOR = 1"
    by (simp add: separators_def CSV_SEPARATOR_def)
  then have "separators (csv_row r) =
               separators (app_id (app r)) + 1 + separators (app_name (app r)) + 1 + (length (quality r) - 1)"
    by (simp add: csv_row_def separators_append separators_flags)
  then show ?thesis
    by (auto simp: field_count_def max_def)
qed

lemma report_size:
  assumes "consistent this"
    and "r \<in> set (emitted (fst (evaluateCriteria sched a m es this)))"
  shows "length (quality r) =
           sum_list (map (\<lambda>c. length (emitted (evaluate c a m es))) (fst (getEnabledCriteria this)))
         \<and> ((\<forall>c \<in> set (fst (getEnabledCriteria this)). length (emitted (evaluate c a m es)) = 1) \<longrightarrow>
              length (quality r) = length (fst (getEnabledCriteria (snd (evaluateCriteria sched a m es this))))
              \<and> mset (map qc_reference (quality r)) = mset (map reference (fst (getEnabledCriteria this))))"
proof -
  let ?E = "enabledCriteria_of this"
  let ?ev = "evaluations sched a m es ?E"
  have E: "fst (getEnabledCriteria this) = ?E"
    by (rule getEnabledCriteria_consistent(1) [OF assms(1)])
  have after: "fst (getEnabledCriteria (snd (evaluateCriteria sched a m es this))) = ?E"
    using getEnabledCriteria_consistent [OF assms(1)] evaluateCriteria_eq(2) [OF assms(1), of sched a m es]
      getEnabledCriteria_consistent(1) [of "snd (getEnabledCriteria this)"]
    by simp
  have completed: "ending ?ev = Completed"
    and r: "r = \<lparr> app = a, quality = sort_key qc_reference (emitted ?ev) \<rparr>"
    using report_emitted [OF assms] by simp_all
  have delivered: "mset (emitted ?ev) = delivered (map (results_of a m es) ?E)"
    by (rule evaluations_completed(2) [OF completed])
  have "length (quality r) = size (mset (emitted ?ev))"
    using r by simp
  then have size: "length (quality r) = sum_list (map (\<lambda>c. length (emitted (evaluate c a m es))) ?E)"
    using delivered size_delivered_results [of a m es ?E] by simp
  have refs: "mset (map qc_reference (quality r)) =
                mset (concat (map (\<lambda>c. replicate (length (emitted (evaluate c a m es))) (reference c)) ?E))"
    using r delivered references_delivered [of a m es ?E] by simp
  show ?thesis
  proof (intro conjI impI)
    show "length (quality r) = sum_list (map (\<lambda>c. length (emitted (evaluate c a m es))) (fst (getEnabledCriteria this)))"
      using size E by simp
  next
    assume one: "\<forall>c \<in> set (fst (getEnabledCriteria this)). length (emitted (evaluate c a m es)) = 1"
    then have "sum_list (map (\<lambda>c. length (emitted (evaluate c a m es))) ?E) = length ?E"
      unfolding E by (rule sum_list_ones)
    then show "length (quality r) = length (fst (getEnabledCriteria (snd (evaluateCriteria sched a m es this))))"
      using size after by simp
  next
    assume one: "\<forall>c \<in> set (fst (getEnabledCriteria this)). length (emitted (evaluate c a m es)) = 1"
    then show "mset (map qc_reference (quality r)) = mset (map reference (fst (getEnabledCriteria this)))"
      using refs one_each [of ?E a m es] E by simp
  qed
qed

lemma row_fields:
  "field_count (csv_row r) = 2 + max 1 (length (quality r)) + separators (app_id (app r)) + separators (app_name (app r))
   \<and> (length (quality r) = length enabledCriteria \<longrightarrow> field_count (csv_row r) = 2 + length enabledCriteria \<longrightarrow>
        CHR '','' \<notin> set (app_id (app r)) \<and> CHR '','' \<notin> set (app_name (app r)))
   \<and> (quality r \<noteq> [] \<longrightarrow> CHR '','' \<notin> set (app_id (app r)) \<longrightarrow> CHR '','' \<notin> set (app_name (app r)) \<longrightarrow>
        field_count (csv_row r) = 2 + length (quality r))
   \<and> field_count (csv_header (fst (getEnabledCriteria (new_command administrator)))) = 4
   \<and> field_count (csv_row \<lparr> app = analytics, quality =
          [QualityCriterion ''Name's naming convention complied'' ''APP-DF01'' False,
           QualityCriterion ''Description's length higher than 30'' ''APP-DF02'' False] \<rparr>) = 5"
proof (intro conjI impI)
  show row: "field_count (csv_row r) = 2 + max 1 (length (quality r)) + separators (app_id (app r)) + separators (app_name (app r))"
    by (rule fields_row)
  show "CHR '','' \<notin> set (app_id (app r))"
    if "length (quality r) = length enabledCriteria" "field_count (csv_row r) = 2 + length enabledCriteria"
    using that row by (simp add: separators_none [symmetric] max_def split: if_splits)
  show "CHR '','' \<notin> set (app_name (app r))"
    if "length (quality r) = length enabledCriteria" "field_count (csv_row r) = 2 + length enabledCriteria"
    using that row by (simp add: separators_none [symmetric] max_def split: if_splits)
  show "field_count (csv_row r) = 2 + length (quality r)"
    if "quality r \<noteq> []" "CHR '','' \<notin> set (app_id (app r))" "CHR '','' \<notin> set (app_name (app r))"
  proof -
    have "separators (app_id (app r)) = 0" "separators (app_name (app r)) = 0"
      using that(2,3) by (simp_all add: separators_none)
    moreover have "max 1 (length (quality r)) = length (quality r)"
      using that(1) by (cases "quality r") simp_all
    ultimately show ?thesis using row by simp
  qed
  show "field_count (csv_header (fst (getEnabledCriteria (new_command administrator)))) = 4"
    by code_simp
  show "field_count (csv_row \<lparr> app = analytics, quality =
          [QualityCriterion ''Name's naming convention complied'' ''APP-DF01'' False,
           QualityCriterion ''Description's length higher than 30'' ''APP-DF02'' False] \<rparr>) = 5"
    by code_simp
qed

lemma report_produced:
  assumes "consistent this"
    and "\<forall>c \<in> set (enabledCriteria_of this). ending (evaluate c a m es) = Completed"
  shows "fst (evaluateCriteria sched a m es this) =
           Observable [\<lparr> app = a, quality = sort_key qc_reference
                          (emitted (evaluations sched a m es (enabledCriteria_of this))) \<rparr>] Completed"
proof -
  let ?running = "map (results_of a m es) (enabledCriteria_of this) @ [Observable [] Completed]"
  have "\<forall>inner \<in> set ?running. ending inner = Completed"
    using assms(2) by (auto simp: results_of_def Rx_map_def)
  then have "ending (mergeAll sched False ?running) = Completed"
    using mergeAll_all_completed [of ?running sched False] by simp
  then have "ending (evaluations sched a m es (enabledCriteria_of this)) = Completed"
    by (simp add: evaluations_def Rx_flatMap_def Rx_from_def)
  then show ?thesis
    using evaluateCriteria_eq(1) [OF assms(1), of sched a m es] by simp
qed

lemma consistent_runtime_command: "consistent runtime_command"
  by (simp add: consistent_def runtime_command_def new_command_def)

lemma evaluations_without_record:
  assumes "app_description a = Some d"
  shows "map (\<lambda>c. evaluate c a m (Some index_without_record)) (enabledCriteria_of runtime_command) =
           [Observable [StringUtils_matches (app_name a) APP_NAME_REGEX] Completed,
            Observable [30 \<le> length d] Completed,
            Observable [] Completed]"
proof -
  have "evaluateUsage args a m (Some index_without_record) = Observable [] Completed" for args
    by (simp add: evaluateUsage_def index_without_record_def Rx_map_def Rx_take_def ONLY_ONE_ES_RESULT_def)
  then show ?thesis
    using assms
    by (simp add: enabledCriteria_of_def catalog_of_def runtime_command_def new_command_def catalog_def
          Object_values_def evaluateNamingConvention_def evaluateMinimumLength_def Rx_of_def
          DESCRIPTION_MIN_LENGTH_def)
qed

lemma report_without_record:
  assumes "app_description a = Some d"
  shows "\<exists>r. fst (evaluateCriteria sched a m (Some index_without_record) runtime_command) = Observable [r] Completed
             \<and> app r = a \<and> length (quality r) = 2"
    and "length (enabledCriteria_of runtime_command) = 3"
proof -
  let ?es = "Some index_without_record"
  let ?E = "enabledCriteria_of runtime_command"
  note E = evaluations_without_record [OF assms, of m]
  have "\<forall>obs \<in> set (map (\<lambda>c. evaluate c a m ?es) ?E). ending obs = Completed"
    unfolding E by simp
  then have completed: "\<forall>c \<in> set ?E. ending (evaluate c a m ?es) = Completed"
    by simp
  define r where "r = \<lparr> app = a, quality = sort_key qc_reference
                          (emitted (evaluations sched a m ?es ?E)) \<rparr>"
  have produced: "fst (evaluateCriteria sched a m ?es runtime_command) = Observable [r] Completed"
    unfolding r_def by (rule report_produced [OF consistent_runtime_command completed])
  then have "r \<in> set (emitted (fst (evaluateCriteria sched a m ?es runtime_command)))"
    by simp
  from report_size [OF consistent_runtime_command this]
  have "length (quality r) = sum_list (map (\<lambda>c. length (emitted (evaluate c a m ?es))) ?E)"
    using getEnabledCriteria_consistent(1) [OF consistent_runtime_command] by simp
  also have "\<dots> = sum_list (map (\<lambda>obs. length (emitted obs)) (map (\<lambda>c. evaluate c a m ?es) ?E))"
    by (simp add: comp_def)
  also have "\<dots> = 2"
    unfolding E by simp
  finally have "length (quality r) = 2" .
  moreover have "app r = a" by (simp add: r_def)
  ultimately show "\<exists>r. fst (evaluateCriteria sched a m ?es runtime_command) = Observable [r] Completed
             \<and> app r = a \<and> length (quality r) = 2"
    using produced by blast
  have "length ?E = length (map (\<lambda>c. evaluate c a m ?es) ?E)" by simp
  also have "\<dots> = 3" unfolding E by simp
  finally show "length ?E = 3" .
qed




section \<open>Matching by derivatives is matching\<close>

lemma conc_head:
  "c # s \<in> conc A B \<longleftrightarrow> (\<exists>a b. s = a @ b \<and> c # a \<in> A \<and> b \<in> B) \<or> ([] \<in> A \<and> c # s \<in> B)"
proof
  assume "c # s \<in> conc A B"
  then obtain a b where ab: "c # s = a @ b" "a \<in> A" "b \<in> B"
    by (auto simp: conc_def)
  show "(\<exists>a b. s = a @ b \<and> c # a \<in> A \<and> b \<in> B) \<or> ([] \<in> A \<and> c # s \<in> B)"
  proof (cases a)
    case Nil
    with ab show ?thesis by simp
  next
    case (Cons d a')
    with ab have "s = a' @ b" "c # a' \<in> A" by simp_all
    with ab(3) show ?thesis by blast
  qed
next
  assume "(\<exists>a b. s = a @ b \<and> c # a \<in> A \<and> b \<in> B) \<or> ([] \<in> A \<and> c # s \<in> B)"
  then show "c # s \<in> conc A B"
  proof
    assume "\<exists>a b. s = a @ b \<and> c # a \<in> A \<and> b \<in> B"
    then obtain a b where "s = a @ b" "c # a \<in> A" "b \<in> B" by blast
    then have "c # s = (c # a) @ b" by simp
    with \<open>c # a \<in> A\<close> \<open>b \<in> B\<close> show ?thesis unfolding conc_def by blast
  next
    assume "[] \<in> A \<and> c # s \<in> B"
    then have "c # s = [] @ (c # s)" "[] \<in> A" "c # s \<in> B" by simp_all
    then show ?thesis unfolding conc_def by blast
  qed
qed

lemma star_head_only_if:
  "x \<in> star A \<Longrightarrow> x = c # s \<Longrightarrow> \<exists>a b. s = a @ b \<and> c # a \<in> A \<and> b \<in> star A"
proof (induction arbitrary: s rule: star.induct)
  case none
  then show ?case by simp
next
  case (more a t)
  show ?case
  proof (cases a)
    case Nil
    with more show ?thesis by simp
  next
    case (Cons d a')
    with more.prems have "s = a' @ t" "d = c" by simp_all
    with more.hyps Cons show ?thesis by blast
  qed
qed

lemma star_head:
  "c # s \<in> star A \<longleftrightarrow> (\<exists>a b. s = a @ b \<and> c # a \<in> A \<and> b \<in> star A)"
proof
  assume "c # s \<in> star A"
  then show "\<exists>a b. s = a @ b \<and> c # a \<in> A \<and> b \<in> star A"
    by (rule star_head_only_if) simp
next
  assume "\<exists>a b. s = a @ b \<and> c # a \<in> A \<and> b \<in> star A"
  then obtain a b where "s = a @ b" "c # a \<in> A" "b \<in> star A" by blast
  then show "c # s \<in> star A"
    using star.more [of "c # a" A b] by simp
qed

lemma nullable_lang: "nullable r \<longleftrightarrow> [] \<in> lang r"
  by (induction r) (auto simp: conc_def intro: star.none)

lemma conc_iff: "s \<in> conc A B \<longleftrightarrow> (\<exists>a b. s = a @ b \<and> a \<in> A \<and> b \<in> B)"
  by (auto simp: conc_def)

lemma deriv_lang: "s \<in> lang (deriv c r) \<longleftrightarrow> c # s \<in> lang r"
proof (induction r arbitrary: s)
  case (Seq r1 r2)
  have "c # s \<in> lang (Seq r1 r2) \<longleftrightarrow>
          (\<exists>a b. s = a @ b \<and> c # a \<in> lang r1 \<and> b \<in> lang r2) \<or> ([] \<in> lang r1 \<and> c # s \<in> lang r2)"
    by (simp add: conc_head)
  moreover have "s \<in> lang (deriv c (Seq r1 r2)) \<longleftrightarrow>
          (\<exists>a b. s = a @ b \<and> a \<in> lang (deriv c r1) \<and> b \<in> lang r2) \<or> (nullable r1 \<and> s \<in> lang (deriv c r2))"
    by (auto simp: conc_iff)
  ultimately show ?case
    by (simp add: Seq nullable_lang)
next
  case (Star r)
  have "s \<in> lang (deriv c (Star r)) \<longleftrightarrow> (\<exists>a b. s = a @ b \<and> a \<in> lang (deriv c r) \<and> b \<in> star (lang r))"
    by (simp add: conc_iff)
  then show ?case
    by (simp add: star_head Star)
qed auto

lemma matches_lang: "StringUtils_matches s r \<longleftrightarrow> s \<in> lang r"
  unfolding StringUtils_matches_def
  by (induction s arbitrary: r) (simp_all add: nullable_lang deriv_lang)

lemma star_word_chars: "star {[c] | c. isWordChar c} = {w. list_all isWordChar w}"
proof (rule set_eqI, rule iffI)
  fix w assume "w \<in> star {[c] | c. isWordChar c}"
  then show "w \<in> {w. list_all isWordChar w}"
    by (induction rule: star.induct) auto
next
  fix w assume "w \<in> {w. list_all isWordChar w}"
  then have "list_all isWordChar w" by simp
  then show "w \<in> star {[c] | c. isWordChar c}"
  proof (induction w)
    case Nil
    show ?case by (rule star.none)
  next
    case (Cons c w)
    then have "[c] \<in> {[c] | c. isWordChar c}" "w \<in> star {[c] | c. isWordChar c}" by simp_all
    then have "[c] @ w \<in> star {[c] | c. isWordChar c}" by (rule star.more)
    then show ?case by simp
  qed
qed

lemma lang_Plus_WordChar: "lang (Plus WordChar) = word"
proof (rule set_eqI)
  fix w
  have "w \<in> lang (Plus WordChar) \<longleftrightarrow> (\<exists>a b. w = a @ b \<and> (\<exists>c. a = [c] \<and> isWordChar c) \<and> list_all isWordChar b)"
    by (simp add: Plus_def star_word_chars conc_iff)
  also have "\<dots> \<longleftrightarrow> (\<exists>c b. w = [c] @ b \<and> isWordChar c \<and> list_all isWordChar b)"
    by blast
  also have "\<dots> \<longleftrightarrow> w \<in> word"
    by (cases w) (simp_all add: word_def)
  finally show "w \<in> lang (Plus WordChar) \<longleftrightarrow> w \<in> word" .
qed

lemma lang_Str: "lang (Str s) = {s}"
  by (induction s) (auto simp: conc_def)

lemma lang_words: "lang words = phrase"
  using lang_Plus_WordChar by (simp add: words_def phrase_def)

lemma lang_APP_NAME_REGEX: "lang APP_NAME_REGEX = naming_convention"
  using lang_Plus_WordChar lang_words lang_Str [of "'' - ''"]
  by (simp add: APP_NAME_REGEX_def naming_convention_def Opt_def optional_def del: Str.simps)

section \<open>The evaluators\<close>

text \<open>
  C5. The minimum-length evaluator answers \<open>true\<close> exactly when the length it is given
  is at least the minimum it is given; the catalog's \<^verbatim>\<open>APP-DF02\<close> entry calls it with
  the minimum \<^verbatim>\<open>DESCRIPTION_MIN_LENGTH\<close>, which is 30, and the length of the
  application's description. A description of 29 characters does not comply and one of 30
  does.
\<close>

theorem minimum_length_evaluator:
  "evaluateMinimumLength expected actual = Observable [expected \<le> actual] Completed
   \<and> map_option (\<lambda>c. (reference c, evaluate c (a\<lparr>app_description := Some d\<rparr>) m es))
         (map_of (catalog args) ''descriptionMinLength'')
       = Some (''APP-DF02'', Observable [30 \<le> length d] Completed)
   \<and> DESCRIPTION_MIN_LENGTH = 30
   \<and> evaluateMinimumLength DESCRIPTION_MIN_LENGTH 29 = Observable [False] Completed
   \<and> evaluateMinimumLength DESCRIPTION_MIN_LENGTH 30 = Observable [True] Completed"
  by (simp add: evaluateMinimumLength_def Rx_of_def catalog_def DESCRIPTION_MIN_LENGTH_def)

text \<open>
  C6. The naming-convention evaluator answers whether the whole name follows the
  convention: an optional namespace block, one or more words, an optional country suffix.
  The catalog's \<^verbatim>\<open>APP-DF01\<close> entry calls it with the pattern of line 21 and the
  application's name. \<^verbatim>\<open>Billing - Invoicing - FR\<close> complies and \<^verbatim>\<open>invalid_name!\<close> does
  not.
\<close>

theorem naming_convention_evaluator:
  "evaluateNamingConvention APP_NAME_REGEX name = Observable [name \<in> naming_convention] Completed
   \<and> map_option (\<lambda>c. (reference c, evaluate c a m es)) (map_of (catalog args) ''nameNamingConvention'')
       = Some (''APP-DF01'', evaluateNamingConvention APP_NAME_REGEX (app_name a))
   \<and> evaluateNamingConvention APP_NAME_REGEX ''Billing - Invoicing - FR'' = Observable [True] Completed
   \<and> evaluateNamingConvention APP_NAME_REGEX ''invalid_name!'' = Observable [False] Completed"
proof -
  have "evaluateNamingConvention APP_NAME_REGEX name = Observable [name \<in> naming_convention] Completed"
    by (simp add: evaluateNamingConvention_def Rx_of_def matches_lang lang_APP_NAME_REGEX)
  moreover have "map_option (\<lambda>c. (reference c, evaluate c a m es)) (map_of (catalog args) ''nameNamingConvention'')
       = Some (''APP-DF01'', evaluateNamingConvention APP_NAME_REGEX (app_name a))"
    by (simp add: catalog_def)
  moreover have "StringUtils_matches ''Billing - Invoicing - FR'' APP_NAME_REGEX"
    by code_simp
  moreover have "\<not> StringUtils_matches ''invalid_name!'' APP_NAME_REGEX"
    by code_simp
  ultimately show ?thesis
    by (simp add: evaluateNamingConvention_def Rx_of_def)
qed

theorem naming_convention_evaluator_witness:
  "''Billing - Invoicing - FR'' \<in> naming_convention \<and> ''invalid_name!'' \<notin> naming_convention"
  using naming_convention_evaluator [of "''Billing - Invoicing - FR''"]
        naming_convention_evaluator [of "''invalid_name!''"]
  by simp

text \<open>
  C7. The runtime-usage evaluator sends the index one request: the configured index
  name and time window, the single term \<^verbatim>\<open>application\<close> = the application's id, and a
  page size of one. When the index answers that request with at least one record, the
  evaluator delivers one boolean and completes: whether the total reported by the first
  record is greater than zero. Nothing else of the index matters: two indices that answer
  this request alike give the same evaluation. A total of 0 gives \<open>false\<close> and a total of 3
  gives \<open>true\<close>.
\<close>

theorem usage_evaluator:
  assumes "searchHits es (elasticsearch_index args) (evaluate_runtime_from args) (evaluate_runtime_to args)
             [(''application'', app_id a)] 1 = Observable (h # hs) e"
  shows "evaluateUsage args a m (Some es) = Observable [0 < total (meta h)] Completed
         \<and> map_option (\<lambda>c. (reference c, evaluate c a m (Some es))) (map_of (catalog args) ''appUsage'')
             = Some (''APP-R00'', Observable [0 < total (meta h)] Completed)
         \<and> (\<forall>es'. searchHits es' (elasticsearch_index args) (evaluate_runtime_from args) (evaluate_runtime_to args)
                     [(''application'', app_id a)] 1 = Observable (h # hs) e
                \<longrightarrow> evaluateUsage args a m (Some es') = evaluateUsage args a m (Some es))"
  using assms
  by (simp add: evaluateUsage_def Rx_map_def Rx_take_def ONLY_ONE_ES_RESULT_def catalog_def)

theorem usage_evaluator_witness:
  "evaluateUsage (default_argv ''admin'' ''secret'' ''gravitee-request-*'') billing (listing_service (Rx_from [])) (Some (index_reporting 0))
     = Observable [False] Completed
   \<and> evaluateUsage (default_argv ''admin'' ''secret'' ''gravitee-request-*'') billing (listing_service (Rx_from [])) (Some (index_reporting 3))
     = Observable [True] Completed"
  using usage_evaluator [of "index_reporting 0" "default_argv ''admin'' ''secret'' ''gravitee-request-*''" billing
          "\<lparr> meta = \<lparr> total = 0 \<rparr> \<rparr>" "[]" Completed "listing_service (Rx_from [])"]
        usage_evaluator [of "index_reporting 3" "default_argv ''admin'' ''secret'' ''gravitee-request-*''" billing
          "\<lparr> meta = \<lparr> total = 3 \<rparr> \<rparr>" "[]" Completed "listing_service (Rx_from [])"]
  by (simp add: index_reporting_def)

text \<open>
  C9. For an application whose description is absent, the \<^verbatim>\<open>APP-DF02\<close> entry of the
  catalog delivers no boolean: its evaluation fails with the \<^verbatim>\<open>TypeError\<close> of reading
  \<^verbatim>\<open>length\<close>. The evaluation of that application's criteria, by a command with the
  default catalog, then fails as well, whatever the order of delivery: no report, and so no
  \<open>complied = false\<close>, is produced for it.
\<close>

theorem missing_description_fails:
  assumes "app_description a = None"
  shows "map_option (\<lambda>c. (reference c, evaluate c a m es)) (map_of (catalog args) ''descriptionMinLength'')
           = Some (''APP-DF02'', Observable [] (Failed (TypeError ''Cannot read property 'length' of undefined'')))
         \<and> (\<forall>sched. \<exists>err. fst (evaluateCriteria sched a m es (new_command args)) = Observable [] (Failed err))"
proof -
  let ?cmd = "new_command args"
  have unset: "memo_criteria ?cmd = None" "memo_enabledCriteria ?cmd = None"
    by (simp_all add: new_command_def)
  obtain c where c: "c \<in> set (enabledCriteria_of ?cmd)"
    "ending (evaluate c a m es) = Failed (TypeError ''Cannot read property 'length' of undefined'')"
    using default_catalog_minimum_length [OF unset(1)] assms by (auto simp: Rx_throw_def)
  have "\<exists>err. fst (evaluateCriteria sched a m es ?cmd) = Observable [] (Failed err)" for sched
  proof -
    obtain err where "ending (evaluations sched a m es (enabledCriteria_of ?cmd)) = Failed err"
      using evaluations_failed [OF c] by blast
    then show ?thesis
      using evaluateCriteria_eq(1) [OF consistent_unset [OF unset(2)], of sched a m es] by simp
  qed
  moreover have "map_option (\<lambda>c. (reference c, evaluate c a m es)) (map_of (catalog args) ''descriptionMinLength'')
           = Some (''APP-DF02'', Observable [] (Failed (TypeError ''Cannot read property 'length' of undefined'')))"
    using assms by (simp add: catalog_def Rx_throw_def)
  ultimately show ?thesis by blast
qed

theorem missing_description_fails_witness:
  "\<exists>err. fst (evaluateCriteria [] (billing\<lparr>app_description := None\<rparr>) (listing_service (Rx_from [])) None
              (new_command (default_argv ''admin'' ''secret'' ''gravitee-request-*'')))
          = Observable [] (Failed err)"
  using missing_description_fails [of "billing\<lparr>app_description := None\<rparr>" "listing_service (Rx_from [])" None
          "default_argv ''admin'' ''secret'' ''gravitee-request-*''"]
  by simp

section \<open>The enabled criteria\<close>

text \<open>
  C3. When \<^verbatim>\<open>getEnabledCriteria\<close> computes its result (the memo is unset), a criterion
  is in it exactly when it is in the catalog, its \<^verbatim>\<open>enabled\<close> flag is true and either
  its \<^verbatim>\<open>atRuntime\<close> flag is false or the run evaluates runtime criteria. The result
  without runtime evaluation is the result with runtime evaluation less its
  runtime-flagged entries, and those are the enabled runtime-flagged entries of the
  catalog. For the default catalog the references are \<^verbatim>\<open>APP-DF01\<close>, \<^verbatim>\<open>APP-DF02\<close>
  without runtime evaluation and \<^verbatim>\<open>APP-DF01\<close>, \<^verbatim>\<open>APP-DF02\<close>, \<^verbatim>\<open>APP-R00\<close> with it.
\<close>

theorem enabled_criteria_membership:
  assumes "memo_enabledCriteria this = None"
  shows "(c \<in> set (fst (getEnabledCriteria this)) \<longleftrightarrow>
            c \<in> set (Object_values (catalog_of this)) \<and> enabled c \<and> (\<not> atRuntime c \<or> evaluate_runtime (argv this)))
         \<and> fst (getEnabledCriteria (this\<lparr>argv := (argv this)\<lparr>evaluate_runtime := False\<rparr>\<rparr>)) =
             filter (\<lambda>c. \<not> atRuntime c) (fst (getEnabledCriteria (this\<lparr>argv := (argv this)\<lparr>evaluate_runtime := True\<rparr>\<rparr>)))
         \<and> filter atRuntime (fst (getEnabledCriteria (this\<lparr>argv := (argv this)\<lparr>evaluate_runtime := True\<rparr>\<rparr>))) =
             sort_key reference (filter (\<lambda>c. enabled c \<and> atRuntime c) (Object_values (catalog_of this)))
         \<and> map reference (fst (getEnabledCriteria (new_command (args\<lparr>evaluate_runtime := False\<rparr>)))) =
             [''APP-DF01'', ''APP-DF02'']
         \<and> map reference (fst (getEnabledCriteria (new_command (args\<lparr>evaluate_runtime := True\<rparr>)))) =
             [''APP-DF01'', ''APP-DF02'', ''APP-R00'']"
proof -
  let ?off = "this\<lparr>argv := (argv this)\<lparr>evaluate_runtime := False\<rparr>\<rparr>"
  let ?on = "this\<lparr>argv := (argv this)\<lparr>evaluate_runtime := True\<rparr>\<rparr>"
  have unset: "memo_enabledCriteria ?off = None" "memo_enabledCriteria ?on = None"
    using assms by simp_all
  have off: "fst (getEnabledCriteria ?off) =
               sort_key reference (filter (\<lambda>c. enabled c \<and> \<not> atRuntime c) (Object_values (catalog_of this)))"
    using getEnabledCriteria_unset(1) [OF unset(1)] enabledCriteria_of_runtime_flag [where this = this and b = False] by simp
  have on: "fst (getEnabledCriteria ?on) =
               sort_key reference (filter enabled (Object_values (catalog_of this)))"
    using getEnabledCriteria_unset(1) [OF unset(2)] enabledCriteria_of_runtime_flag [where this = this and b = True] by simp
  have 1: "c \<in> set (fst (getEnabledCriteria this)) \<longleftrightarrow>
            c \<in> set (Object_values (catalog_of this)) \<and> enabled c \<and> (\<not> atRuntime c \<or> evaluate_runtime (argv this))"
    using getEnabledCriteria_unset(1) [OF assms] by (auto simp: enabledCriteria_of_def)
  have 2: "fst (getEnabledCriteria ?off) = filter (\<lambda>c. \<not> atRuntime c) (fst (getEnabledCriteria ?on))"
    unfolding off on by (simp add: filter_sort)
  have 3: "filter atRuntime (fst (getEnabledCriteria ?on)) =
             sort_key reference (filter (\<lambda>c. enabled c \<and> atRuntime c) (Object_values (catalog_of this)))"
    unfolding on by (simp add: filter_sort conj_commute)
  have 4: "map reference (fst (getEnabledCriteria (new_command (args\<lparr>evaluate_runtime := False\<rparr>)))) =
             [''APP-DF01'', ''APP-DF02'']"
    using getEnabledCriteria_unset(1) [of "new_command (args\<lparr>evaluate_runtime := False\<rparr>)"]
      default_enabledCriteria_off [of args]
    by (simp add: new_command_def)
  have 5: "map reference (fst (getEnabledCriteria (new_command (args\<lparr>evaluate_runtime := True\<rparr>)))) =
             [''APP-DF01'', ''APP-DF02'', ''APP-R00'']"
    using getEnabledCriteria_unset(1) [of "new_command (args\<lparr>evaluate_runtime := True\<rparr>)"]
      default_enabledCriteria_on [of args]
    by (simp add: new_command_def)
  from 1 2 3 4 5 show ?thesis by blast
qed

theorem enabled_criteria_membership_witness:
  "map reference (fst (getEnabledCriteria (new_command (default_argv ''admin'' ''secret'' ''gravitee-request-*'')))) =
     [''APP-DF01'', ''APP-DF02'']
   \<and> map reference (filter atRuntime (fst (getEnabledCriteria
        (new_command ((default_argv ''admin'' ''secret'' ''gravitee-request-*'')\<lparr>evaluate_runtime := True\<rparr>))))) =
     [''APP-R00'']"
proof -
  let ?args = "default_argv ''admin'' ''secret'' ''gravitee-request-*''"
  have unset: "memo_enabledCriteria (new_command ?args) = None"
    by (simp add: new_command_def)
  have "?args\<lparr>evaluate_runtime := False\<rparr> = ?args"
    by (simp add: default_argv_def)
  moreover have "(new_command ?args)\<lparr>argv := (argv (new_command ?args))\<lparr>evaluate_runtime := True\<rparr>\<rparr>
                 = new_command (?args\<lparr>evaluate_runtime := True\<rparr>)"
    by (simp add: new_command_def)
  moreover have "map reference (sort_key reference (filter (\<lambda>c. enabled c \<and> atRuntime c)
                    (Object_values (catalog_of (new_command ?args))))) = [''APP-R00'']"
    by (simp add: catalog_of_def new_command_def catalog_def Object_values_def)
  ultimately show ?thesis
    using enabled_criteria_membership [OF unset, of "hd (Object_values (catalog ?args))" ?args]
    by (metis (no_types, lifting))
qed

section \<open>The report of one application\<close>

text \<open>
  C2. A report holds one quality result per enabled criterion, whatever the order in
  which the evaluators deliver, when every evaluator delivers one boolean: then
  \<^verbatim>\<open>evaluateCriteria\<close> keeps each of them (\<open>report_produced\<close>, \<open>report_size\<close>). The
  two local evaluators deliver one boolean each (lines 177 and 181). The runtime-usage
  evaluator (lines 185 to 194) passes on the first record of the index's answer and has
  nothing to deliver when the answer holds no record. So with runtime evaluation on and an
  index that answers with no record, for every application that has a description, every
  management client and every order of delivery, \<^verbatim>\<open>evaluateCriteria\<close> emits one report
  and completes, the report holds two quality results, and three criteria are enabled,
  also when \<^verbatim>\<open>getEnabledCriteria\<close> is asked after the evaluation.
\<close>

theorem report_without_usage_result:
  assumes "app_description a = Some d"
  shows "(\<exists>r. fst (evaluateCriteria sched a m (Some index_without_record) runtime_command) = Observable [r] Completed
            \<and> length (quality r) = 2)
         \<and> length (fst (getEnabledCriteria (snd (evaluateCriteria sched a m (Some index_without_record) runtime_command)))) = 3
         \<and> evaluateUsage (argv runtime_command) a m (Some index_without_record) = Observable [] Completed"
proof -
  let ?es = "Some index_without_record"
  have "\<exists>r. fst (evaluateCriteria sched a m ?es runtime_command) = Observable [r] Completed \<and> length (quality r) = 2"
    using report_without_record(1) [OF assms, of sched m] by blast
  moreover have "length (fst (getEnabledCriteria (snd (evaluateCriteria sched a m ?es runtime_command)))) = 3"
    using getEnabledCriteria_consistent(1)
            [OF evaluateCriteria_state(1) [OF consistent_runtime_command, of sched a m ?es]]
      evaluateCriteria_state(2) [OF consistent_runtime_command, of sched a m ?es]
      report_without_record(2) [OF assms]
    by simp
  moreover have "evaluateUsage (argv runtime_command) a m ?es = Observable [] Completed"
    by (simp add: evaluateUsage_def index_without_record_def Rx_map_def Rx_take_def ONLY_ONE_ES_RESULT_def)
  ultimately show ?thesis by blast
qed

theorem report_without_usage_result_witness:
  "fst (evaluateCriteria [] billing (listing_service (Rx_from [])) (Some index_without_record) runtime_command)
     = Observable [\<lparr> app = billing, quality =
        [QualityCriterion ''Name's naming convention complied'' ''APP-DF01'' True,
         QualityCriterion ''Description's length higher than 30'' ''APP-DF02'' True] \<rparr>] Completed
   \<and> length (fst (getEnabledCriteria (snd (evaluateCriteria [] billing (listing_service (Rx_from []))
         (Some index_without_record) runtime_command)))) = 3"
proof -
  have 1: "app_description billing = Some ''Issues and tracks the invoices of France''"
    by (simp add: billing_def)
  have 2: "fst (evaluateCriteria [] billing (listing_service (Rx_from [])) (Some index_without_record) runtime_command)
     = Observable [\<lparr> app = billing, quality =
        [QualityCriterion ''Name's naming convention complied'' ''APP-DF01'' True,
         QualityCriterion ''Description's length higher than 30'' ''APP-DF02'' True] \<rparr>] Completed"
    by code_simp
  from report_without_usage_result [OF 1, of "[]" "listing_service (Rx_from [])"] 2
  show ?thesis by blast
qed

section \<open>The table\<close>

text \<open>
  C1. In every run (whatever the options, the catalog, the collaborators and the orders of
  delivery) the enabled criteria, from which the header's criterion columns are printed,
  are in ascending order of \<^verbatim>\<open>reference\<close>, and they are the same at the end of the run;
  the quality results of every report the reporter received, from which a row's compliance
  columns are printed, are in ascending order of \<^verbatim>\<open>reference\<close> too. When the run
  completes, the table is that header followed by the rows of the reports. A report whose
  evaluators each delivered one boolean has its results under the very references of the
  header, column by column. The command is any whose memo of the enabled criteria is unset
  or holds what \<^verbatim>\<open>getEnabledCriteria\<close> computes.
\<close>

theorem columns_in_reference_order:
  assumes "consistent this"
    and "definition_run sch createInstance m this = (rep, this', outcome)"
  shows "sorted (map reference (fst (getEnabledCriteria this)))
         \<and> fst (getEnabledCriteria this') = fst (getEnabledCriteria this)
         \<and> csv_header (fst (getEnabledCriteria this)) =
             ''Application id,Application name,'' @ Array_join '','' (map reference (fst (getEnabledCriteria this)))
         \<and> (outcome = Succeeded \<longrightarrow>
               raw_lines (console this') =
                 raw_lines (console this) @ csv_header (fst (getEnabledCriteria this)) # map csv_row (qualityApps rep))
         \<and> (\<forall>r \<in> set (qualityApps rep).
               sorted (map qc_reference (quality r))
               \<and> ((\<forall>c \<in> set (fst (getEnabledCriteria this)).
                      length (emitted (evaluate c (app r) m (connect createInstance (argv this)))) = 1)
                    \<longrightarrow> map qc_reference (quality r) = map reference (fst (getEnabledCriteria this))))"
proof -
  let ?es = "connect createInstance (argv this)"
  have E: "fst (getEnabledCriteria this) = enabledCriteria_of this"
    by (rule getEnabledCriteria_consistent(1) [OF assms(1)])
  have run: "qualityApps rep = emitted (fst (pipeline sch ?es m this))"
    "consistent this'" "enabledCriteria_of this' = enabledCriteria_of this"
    "raw_lines (console this') = raw_lines (console this) @
           (if outcome = Succeeded then csv_header (enabledCriteria_of this) # map csv_row (qualityApps rep) else [])"
    using run_result [OF assms] by simp_all
  have E': "fst (getEnabledCriteria this') = fst (getEnabledCriteria this)"
    using getEnabledCriteria_consistent(1) [OF run(2)] run(3) E by simp
  have rows: "sorted (map qc_reference (quality r))
               \<and> ((\<forall>c \<in> set (fst (getEnabledCriteria this)).
                      length (emitted (evaluate c (app r) m ?es)) = 1)
                    \<longrightarrow> map qc_reference (quality r) = map reference (fst (getEnabledCriteria this)))"
    if "r \<in> set (qualityApps rep)" for r
  proof -
    from that run(1) have "r \<in> set (emitted (fst (pipeline sch ?es m this)))" by simp
    with pipeline_reports(4) [OF assms(1), of sch ?es m]
    have "\<exists>c0 a. consistent c0 \<and> enabledCriteria_of c0 = enabledCriteria_of this
            \<and> r \<in> set (emitted (fst (evaluateCriteria (criteria_order sch a) a m ?es c0)))"
      by (rule bspec)
    then obtain c0 a where c0: "consistent c0" "enabledCriteria_of c0 = enabledCriteria_of this"
      "r \<in> set (emitted (fst (evaluateCriteria (criteria_order sch a) a m ?es c0)))"
      by (elim exE conjE)
    have "app r = a" and "sorted (map qc_reference (quality r))"
      using report_references(1,2) [OF c0(1,3)] by simp_all
    moreover have "map qc_reference (quality r) = map reference (fst (getEnabledCriteria this))"
      if "\<forall>c \<in> set (fst (getEnabledCriteria this)). length (emitted (evaluate c (app r) m ?es)) = 1"
      using report_references(3) [OF c0(1,3)] that c0(2) E \<open>app r = a\<close> by simp
    ultimately show ?thesis by blast
  qed
  show ?thesis
  proof (intro conjI ballI impI)
    show "sorted (map reference (fst (getEnabledCriteria this)))"
      using sorted_enabledCriteria [of this] E by simp
    show "fst (getEnabledCriteria this') = fst (getEnabledCriteria this)"
      by (rule E')
    show "csv_header (fst (getEnabledCriteria this)) =
             ''Application id,Application name,'' @ Array_join '','' (map reference (fst (getEnabledCriteria this)))"
      by (simp add: csv_header_def CSV_SEPARATOR_def)
    show "raw_lines (console this') =
            raw_lines (console this) @ csv_header (fst (getEnabledCriteria this)) # map csv_row (qualityApps rep)"
      if "outcome = Succeeded"
      using run(4) that E by simp
    show "sorted (map qc_reference (quality r))" if "r \<in> set (qualityApps rep)" for r
      using rows [OF that] by (rule conjunct1)
    show "map qc_reference (quality r) = map reference (fst (getEnabledCriteria this))"
      if "r \<in> set (qualityApps rep)"
        and "\<forall>c \<in> set (fst (getEnabledCriteria this)).
               length (emitted (evaluate c (app r) m (connect createInstance (argv this)))) = 1" for r
      using rows [OF that(1)] that(2) by blast
  qed
qed

theorem columns_in_reference_order_witness:
  "raw_lines (console (fst (snd (definition_run (in_order\<lparr>reports_order := [1]\<rparr>) (\<lambda>url headers. index_reporting 3)
       (listing_service (Rx_from [billing, analytics])) (new_command administrator)))))
     = [''Application id,Application name,APP-DF01,APP-DF02'',
        ''b21e,Analytics, internal,false,false'',
        ''7f3c,Billing - Invoicing - FR,true,true'']"
proof -
  let ?run = "definition_run (in_order\<lparr>reports_order := [1]\<rparr>) (\<lambda>url headers. index_reporting 3)
       (listing_service (Rx_from [billing, analytics])) (new_command administrator)"
  have 1: "consistent (new_command administrator)"
    by (simp add: consistent_def new_command_def)
  have 2: "?run = (fst ?run, fst (snd ?run), snd (snd ?run))"
    by simp
  have 3: "snd (snd ?run) = Succeeded"
    by code_simp
  have 4: "raw_lines (console (new_command administrator)) = []"
    by (simp add: new_command_def raw_lines_def)
  have 5: "csv_header (fst (getEnabledCriteria (new_command administrator))) # map csv_row (qualityApps (fst ?run))
     = [''Application id,Application name,APP-DF01,APP-DF02'',
        ''b21e,Analytics, internal,false,false'',
        ''7f3c,Billing - Invoicing - FR,true,true'']"
    by code_simp
  from columns_in_reference_order [OF 1 2] 3
  have "raw_lines (console (fst (snd ?run))) =
          raw_lines (console (new_command administrator)) @
          csv_header (fst (getEnabledCriteria (new_command administrator))) # map csv_row (qualityApps (fst ?run))"
    by blast
  then show ?thesis
    by (simp only: 4 5 append_Nil)
qed

text \<open>
  C4. \<^verbatim>\<open>doNext\<close> only appends the report it receives to the accumulated ones; it prints
  nothing. \<^verbatim>\<open>doComplete\<close> prints, after the announcement, one header line and then one
  line per accumulated report, in the order the reports were received; a line is the
  application's id, its name and the \<^verbatim>\<open>complied\<close> flag of each quality result, joined
  by commas. In a run, the reporter holds the reports in the order the pipeline delivered
  them, and the table is printed when, and only when, the pipeline completes.
\<close>

theorem sink_prints_on_completion:
  assumes "consistent cliCommand"
  shows "qualityApps (doNext next r) = qualityApps r @ [next]
         \<and> console (doComplete (foldl (\<lambda>r next. doNext next r) new_reporter reports) cliCommand) =
             console cliCommand
               @ [Info ''Applications quality, in CSV format:'', Raw (csv_header (fst (getEnabledCriteria cliCommand)))]
               @ map (\<lambda>q. Raw (csv_row q)) reports
         \<and> csv_row q = app_id (app q) @ '','' @ app_name (app q) @ '','' @
                         Array_join '','' (map (\<lambda>c. Boolean_toString (complied c)) (quality q))
         \<and> (definition_run sch createInstance m cliCommand = (rep, this', outcome) \<longrightarrow>
               qualityApps rep = emitted (fst (pipeline sch (connect createInstance (argv cliCommand)) m cliCommand))
               \<and> raw_lines (console this') =
                   raw_lines (console cliCommand) @
                     (if outcome = Succeeded
                      then csv_header (fst (getEnabledCriteria cliCommand)) # map csv_row (qualityApps rep)
                      else []))"
proof -
  have E: "fst (getEnabledCriteria cliCommand) = enabledCriteria_of cliCommand"
    by (rule getEnabledCriteria_consistent(1) [OF assms])
  have "qualityApps (foldl (\<lambda>r next. doNext next r) new_reporter reports) = reports"
    using accumulated [of new_reporter reports] by (simp add: new_reporter_def)
  then have printed: "console (doComplete (foldl (\<lambda>r next. doNext next r) new_reporter reports) cliCommand) =
             console cliCommand
               @ [Info ''Applications quality, in CSV format:'', Raw (csv_header (fst (getEnabledCriteria cliCommand)))]
               @ map (\<lambda>q. Raw (csv_row q)) reports"
    using doComplete_console(1) [OF assms, of "foldl (\<lambda>r next. doNext next r) new_reporter reports"] E
    by simp
  have run: "qualityApps rep = emitted (fst (pipeline sch (connect createInstance (argv cliCommand)) m cliCommand))
             \<and> raw_lines (console this') =
                   raw_lines (console cliCommand) @
                     (if outcome = Succeeded
                      then csv_header (fst (getEnabledCriteria cliCommand)) # map csv_row (qualityApps rep)
                      else [])"
    if "definition_run sch createInstance m cliCommand = (rep, this', outcome)"
    using run_result(1,5) [OF assms that] E by simp
  show ?thesis
  proof (intro conjI impI)
    show "qualityApps (doNext next r) = qualityApps r @ [next]"
      by (simp add: doNext_def)
    show "csv_row q = app_id (app q) @ '','' @ app_name (app q) @ '','' @
                         Array_join '','' (map (\<lambda>c. Boolean_toString (complied c)) (quality q))"
      by (simp add: csv_row_def CSV_SEPARATOR_def)
  qed (use printed run in blast)+
qed

theorem sink_prints_on_completion_witness:
  "console (doComplete (foldl (\<lambda>r next. doNext next r) new_reporter
       [\<lparr> app = analytics, quality = [QualityCriterion ''Name's naming convention complied'' ''APP-DF01'' False,
                                        QualityCriterion ''Description's length higher than 30'' ''APP-DF02'' False] \<rparr>,
        \<lparr> app = billing, quality = [QualityCriterion ''Name's naming convention complied'' ''APP-DF01'' True,
                                      QualityCriterion ''Description's length higher than 30'' ''APP-DF02'' True] \<rparr>])
     (new_command administrator))
   = [Info ''Applications quality, in CSV format:'',
      Raw ''Application id,Application name,APP-DF01,APP-DF02'',
      Raw ''b21e,Analytics, internal,false,false'',
      Raw ''7f3c,Billing - Invoicing - FR,true,true'']"
proof -
  have 1: "consistent (new_command administrator)"
    by (simp add: consistent_def new_command_def)
  have 2: "console (new_command administrator) = []"
    by (simp add: new_command_def)
  have 3: "csv_header (fst (getEnabledCriteria (new_command administrator))) =
             ''Application id,Application name,APP-DF01,APP-DF02''"
    by code_simp
  have 4: "csv_row \<lparr> app = analytics, quality = [QualityCriterion ''Name's naming convention complied'' ''APP-DF01'' False,
                                        QualityCriterion ''Description's length higher than 30'' ''APP-DF02'' False] \<rparr>
             = ''b21e,Analytics, internal,false,false''"
    by code_simp
  have 5: "csv_row \<lparr> app = billing, quality = [QualityCriterion ''Name's naming convention complied'' ''APP-DF01'' True,
                                      QualityCriterion ''Description's length higher than 30'' ''APP-DF02'' True] \<rparr>
             = ''7f3c,Billing - Invoicing - FR,true,true''"
    by code_simp
  from sink_prints_on_completion [OF 1]
  have "console (doComplete (foldl (\<lambda>r next. doNext next r) new_reporter
       [\<lparr> app = analytics, quality = [QualityCriterion ''Name's naming convention complied'' ''APP-DF01'' False,
                                        QualityCriterion ''Description's length higher than 30'' ''APP-DF02'' False] \<rparr>,
        \<lparr> app = billing, quality = [QualityCriterion ''Name's naming convention complied'' ''APP-DF01'' True,
                                      QualityCriterion ''Description's length higher than 30'' ''APP-DF02'' True] \<rparr>])
     (new_command administrator))
     = console (new_command administrator)
         @ [Info ''Applications quality, in CSV format:'', Raw (csv_header (fst (getEnabledCriteria (new_command administrator))))]
         @ map (\<lambda>q. Raw (csv_row q))
       [\<lparr> app = analytics, quality = [QualityCriterion ''Name's naming convention complied'' ''APP-DF01'' False,
                                        QualityCriterion ''Description's length higher than 30'' ''APP-DF02'' False] \<rparr>,
        \<lparr> app = billing, quality = [QualityCriterion ''Name's naming convention complied'' ''APP-DF01'' True,
                                      QualityCriterion ''Description's length higher than 30'' ''APP-DF02'' True] \<rparr>]"
    by blast
  then show ?thesis
    by (simp only: 2 3 4 5 list.map append_Nil append_Cons)
qed

text \<open>
  C10. The reporter quotes nothing: a row has two fields, plus one per quality result of
  the report, plus one per comma in the id and in the name, so a row with one result per
  enabled criterion has two fields plus one per enabled criterion only when neither the id
  nor the name holds a comma (\<open>row_fields\<close>). The report of an application lacks the
  runtime-usage result when the index answers with no record. So with runtime evaluation
  on and such an index, for every application that has a description and every order of
  delivery, the row has four fields plus one per comma in the id and the name, while two
  plus the number of enabled criteria is five: a name with one comma gives a row of as
  many fields as the header. The run on the application named \<^verbatim>\<open>Analytics, internal\<close>
  prints a header of five fields and a row of five fields.
\<close>

theorem row_without_usage_flag:
  assumes "app_description a = Some d"
  shows "(\<exists>r. fst (evaluateCriteria sched a m (Some index_without_record) runtime_command) = Observable [r] Completed
            \<and> field_count (csv_row r) = 4 + separators (app_id a) + separators (app_name a))
         \<and> 2 + length (fst (getEnabledCriteria runtime_command)) = 5
         \<and> raw_lines (console (fst (snd (definition_run in_order (\<lambda>url headers. index_without_record)
               (listing_service (Rx_from [analytics])) (new_command searching)))))
             = [''Application id,Application name,APP-DF01,APP-DF02,APP-R00'',
                ''b21e,Analytics, internal,false,false'']
         \<and> map field_count
               [''Application id,Application name,APP-DF01,APP-DF02,APP-R00'',
                ''b21e,Analytics, internal,false,false''] = [5, 5]"
proof -
  let ?es = "Some index_without_record"
  obtain r where r: "fst (evaluateCriteria sched a m ?es runtime_command) = Observable [r] Completed"
    "app r = a" "length (quality r) = 2"
    using report_without_record(1) [OF assms, of sched m] by blast
  have "field_count (csv_row r) = 2 + max 1 (length (quality r)) + separators (app_id (app r)) + separators (app_name (app r))"
    using row_fields [of r] by blast
  then have "field_count (csv_row r) = 4 + separators (app_id a) + separators (app_name a)"
    using r(2,3) by simp
  with r(1) have row: "\<exists>r. fst (evaluateCriteria sched a m ?es runtime_command) = Observable [r] Completed
            \<and> field_count (csv_row r) = 4 + separators (app_id a) + separators (app_name a)"
    by blast
  have enabled: "2 + length (fst (getEnabledCriteria runtime_command)) = 5"
    using getEnabledCriteria_consistent(1) [OF consistent_runtime_command] report_without_record(2) [OF assms]
    by simp
  have run: "raw_lines (console (fst (snd (definition_run in_order (\<lambda>url headers. index_without_record)
               (listing_service (Rx_from [analytics])) (new_command searching)))))
             = [''Application id,Application name,APP-DF01,APP-DF02,APP-R00'',
                ''b21e,Analytics, internal,false,false'']"
    by code_simp
  have counts: "map field_count
               [''Application id,Application name,APP-DF01,APP-DF02,APP-R00'',
                ''b21e,Analytics, internal,false,false''] = [5, 5]"
    by code_simp
  from row enabled run counts show ?thesis by blast
qed

theorem row_without_usage_flag_witness:
  "(\<exists>r. fst (evaluateCriteria [] analytics (listing_service (Rx_from [])) (Some index_without_record) runtime_command)
          = Observable [r] Completed
        \<and> field_count (csv_row r) = 5)
   \<and> CHR '','' \<in> set (app_name analytics)"
proof -
  have 1: "app_description analytics = Some ''Dashboards''"
    by (simp add: analytics_def)
  have 2: "separators (app_id analytics) = 0" "separators (app_name analytics) = 1"
    by (simp_all add: analytics_def separators_def CSV_SEPARATOR_def)
  have 3: "CHR '','' \<in> set (app_name analytics)"
    by (simp add: analytics_def)
  from row_without_usage_flag [OF 1, of "[]" "listing_service (Rx_from [])"] 2 3
  show ?thesis by simp
qed

section \<open>A discovery that times out\<close>



end
